theory Spec2Isabelle
  imports Main
begin

text \<open>
  The script \<^verbatim>\<open>generateTranslations\<close> fetches a published sheet as CSV text, parses
  it into rows, folds the rows into three containers (the per-language maps, the key
  registry and the set of languages) and writes each container as a JSON file. This
  theory follows the script from the fetched text on: the parser on simple texts, the
  loop over the rows, the escaping of cell values, \<^verbatim>\<open>JSON.stringify\<close> with two-space
  indentation, \<^verbatim>\<open>path.join\<close> and the sequence of file writes.
\<close>

section \<open>Strings of the script\<close>

text \<open>
  A JavaScript string is a sequence of code units. This development follows the code
  units below 256 and writes them as \<^typ>\<open>char\<close>, so a \<^typ>\<open>string\<close> is a
  JavaScript string whose code units all lie in that range.
\<close>

abbreviation bslash :: char where "bslash \<equiv> CHR 0x5C"
abbreviation dquote :: char where "dquote \<equiv> CHR 0x22"
abbreviation lf :: char where "lf \<equiv> CHR 0x0A"
abbreviation cr :: char where "cr \<equiv> CHR 0x0D"

text \<open>
  What \<^verbatim>\<open>String.prototype.trim\<close> strips: the white space and line terminator code
  units. Below 256 these are TAB, LF, VT, FF, CR, SPACE and NO-BREAK SPACE.
\<close>

definition is_space :: "char \<Rightarrow> bool" where
  "is_space c = (c \<in> set [CHR 0x09, CHR 0x0A, CHR 0x0B, CHR 0x0C, CHR 0x0D, CHR 0x20, CHR 0xA0])"

definition trim :: "string \<Rightarrow> string" where
  "trim s = rev (dropWhile is_space (rev (dropWhile is_space s)))"

text \<open>\<^verbatim>\<open>.replace(/\\/g, "\\\\")\<close>: every backslash becomes two backslashes.\<close>

fun replace_backslash :: "string \<Rightarrow> string" where
  "replace_backslash [] = []"
| "replace_backslash (c # cs) =
     (if c = bslash then bslash # bslash # replace_backslash cs
      else c # replace_backslash cs)"

text \<open>\<^verbatim>\<open>.replace(/"/g, '\\"')\<close>: every double quote becomes backslash, double quote.\<close>

fun replace_quote :: "string \<Rightarrow> string" where
  "replace_quote [] = []"
| "replace_quote (c # cs) =
     (if c = dquote then bslash # dquote # replace_quote cs
      else c # replace_quote cs)"

text \<open>
  \<^verbatim>\<open>.replace(/\r?\n/g, "\\n")\<close>: scanning from the left, a line feed, or a carriage
  return directly followed by a line feed, becomes backslash, letter n. A carriage return
  that no line feed follows stays.
\<close>

fun replace_newline :: "string \<Rightarrow> string" where
  "replace_newline [] = []"
| "replace_newline (c # cs) =
     (if c = lf then bslash # CHR ''n'' # replace_newline cs
      else if c = cr then
        (case cs of
           [] \<Rightarrow> [c]
         | d # ds \<Rightarrow>
             if d = lf then bslash # CHR ''n'' # replace_newline ds
             else c # replace_newline cs)
      else c # replace_newline cs)"

text \<open>The expression bound to \<^verbatim>\<open>safeValue\<close> (lines 57 to 61).\<close>

definition safeValue :: "string \<Rightarrow> string" where
  "safeValue v = trim (replace_newline (replace_quote (replace_backslash v)))"

section \<open>Objects, rows and the accumulated state\<close>

text \<open>
  A cell of a parsed row is a string; the parser's \<^verbatim>\<open>__parsed_extra\<close> column, which
  collects the fields beyond the header, is an array of strings.
\<close>

datatype jsval = JStr string | JArr "string list"

text \<open>Truthiness: the empty string is falsy, every array is truthy.\<close>

fun truthy :: "jsval \<Rightarrow> bool" where
  "truthy (JStr s) = (s \<noteq> [])"
| "truthy (JArr xs) = True"

text \<open>
  An object is the list of its own properties in the order \<^verbatim>\<open>Object.entries\<close> and
  \<^verbatim>\<open>JSON.stringify\<close> visit them: first the array indices (canonical decimal numerals
  below \<open>2^32 - 1\<close>) in ascending numeric order, then the other names in the order they
  were created.
\<close>

type_synonym 'v obj = "(string \<times> 'v) list"

definition is_digit :: "char \<Rightarrow> bool" where
  "is_digit c = (48 \<le> (of_char c :: nat) \<and> (of_char c :: nat) \<le> 57)"

definition dec_value :: "string \<Rightarrow> int" where
  "dec_value s = foldl (\<lambda>n c. 10 * n + (of_char c - 48)) 0 s"

definition array_index :: "string \<Rightarrow> int option" where
  "array_index s =
     (if s \<noteq> [] \<and> list_all is_digit s \<and> (s = ''0'' \<or> hd s \<noteq> CHR ''0'')
         \<and> dec_value s < 4294967295
      then Some (dec_value s) else None)"

text \<open>Whether a new property \<open>k\<close> is enumerated before the existing property \<open>k'\<close>.\<close>

definition comes_before :: "string \<Rightarrow> string \<Rightarrow> bool" where
  "comes_before k k' =
     (case array_index k of
        None \<Rightarrow> False
      | Some i \<Rightarrow> (case array_index k' of None \<Rightarrow> True | Some j \<Rightarrow> i < j))"

fun obj_put :: "string \<Rightarrow> 'v \<Rightarrow> 'v obj \<Rightarrow> 'v obj" where
  "obj_put k v [] = [(k, v)]"
| "obj_put k v ((k', v') # kvs) =
     (if k = k' then (k, v) # kvs
      else if comes_before k k' then (k, v) # (k', v') # kvs
      else (k', v') # obj_put k v kvs)"

text \<open>
  The assignment \<^verbatim>\<open>o[k] = v\<close> of a string \<open>v\<close> to an object created by \<^verbatim>\<open>{}\<close>. The
  name \<^verbatim>\<open>__proto__\<close> is an accessor inherited from \<^verbatim>\<open>Object.prototype\<close> whose setter
  ignores a string, so that assignment creates no property.
\<close>

definition obj_assign :: "string \<Rightarrow> string \<Rightarrow> string obj \<Rightarrow> string obj" where
  "obj_assign k v ob = (if k = ''__proto__'' then ob else obj_put k v ob)"

text \<open>
  The property names every object inherits from \<^verbatim>\<open>Object.prototype\<close>. Reading
  \<^verbatim>\<open>translations[lang]\<close> for one of them yields the inherited built-in, not
  \<^verbatim>\<open>undefined\<close>.
\<close>

definition object_prototype_names :: "string list" where
  "object_prototype_names =
     [''constructor'', ''__defineGetter__'', ''__defineSetter__'', ''hasOwnProperty'',
      ''__lookupGetter__'', ''__lookupSetter__'', ''isPrototypeOf'',
      ''propertyIsEnumerable'', ''toString'', ''valueOf'', ''__proto__'',
      ''toLocaleString'']"

type_synonym sheet_row = "jsval obj"

text \<open>
  The three containers of step 4; \<open>languages\<close> is the Set in insertion order. The fourth
  field records whether \<^verbatim>\<open>Object.entries\<close> is still the built-in function: the loop can
  overwrite it (see \<open>process_entry\<close>), and the script calls it at lines 49 and 72.
\<close>

record state =
  translations_tab :: "(string obj) obj"
  keyMap :: "string obj"
  languages :: "string list"
  entries_intact :: bool

definition init :: state where
  "init = \<lparr>translations_tab = [], keyMap = [], languages = [], entries_intact = True\<rparr>"

text \<open>\<^verbatim>\<open>languages.add(lang)\<close>.\<close>

definition set_add :: "string \<Rightarrow> string list \<Rightarrow> string list" where
  "set_add x xs = (if x \<in> set xs then xs else xs @ [x])"

text \<open>
  How a run can stop. \<open>TypeError\<close>: a method is called on a value that has none
  (\<^verbatim>\<open>value.replace\<close> or \<^verbatim>\<open>row.key?.trim\<close> on an array, \<^verbatim>\<open>Object.entries\<close> after it
  was overwritten), or a store is rejected. \<open>FsError\<close>: the file system refuses to create
  the directory or to write a file.
\<close>

datatype stop = TypeError | FsError

text \<open>
  When \<open>lang\<close> is one of \<open>object_prototype_names\<close> and \<^verbatim>\<open>translations\<close> has no own
  property of that name, \<^verbatim>\<open>translations[lang]\<close> is the inherited built-in: the function
  \<^verbatim>\<open>Object\<close> for \<^verbatim>\<open>constructor\<close>, \<^verbatim>\<open>Object.prototype\<close> itself for \<^verbatim>\<open>__proto__\<close>, a
  method of \<^verbatim>\<open>Object.prototype\<close> for the others. So line 53 creates nothing and line 63
  stores on that built-in. The script is a module, hence strict code: the store raises a
  TypeError when the property is not writable (\<^verbatim>\<open>length\<close> and \<^verbatim>\<open>name\<close> of a function,
  \<^verbatim>\<open>prototype\<close> of \<^verbatim>\<open>Object\<close>) or is one of the accessors \<^verbatim>\<open>caller\<close> and
  \<^verbatim>\<open>arguments\<close> that functions inherit, whose setter throws. Every other store succeeds.
\<close>

definition rejects_store :: "string \<Rightarrow> string \<Rightarrow> bool" where
  "rejects_store lang k =
     (lang \<noteq> ''__proto__''
      \<and> (k \<in> set [''length'', ''name'', ''caller'', ''arguments'']
           \<or> (lang = ''constructor'' \<and> k = ''prototype'')))"

section \<open>Step 5: the loop over the rows\<close>

text \<open>
  The body of the inner loop (lines 50 to 63) for one entry of the row. A store that
  succeeds on a built-in changes none of the three containers; the one built-in the script
  itself uses afterwards is \<^verbatim>\<open>Object.entries\<close>, which the store for column
  \<^verbatim>\<open>constructor\<close> and key \<^verbatim>\<open>entries\<close> replaces by a string. What a store on
  \<^verbatim>\<open>Object.prototype\<close> itself (column \<^verbatim>\<open>__proto__\<close>) does to the other objects of the
  runtime is not followed; a row the parser builds by assignment never has an own property
  of that name.
\<close>

definition process_entry :: "string \<Rightarrow> state \<Rightarrow> string \<times> jsval \<Rightarrow> stop + state" where
  "process_entry rawKey st e =
     (case e of (lang, val) \<Rightarrow>
        if lang = ''key'' \<or> \<not> truthy val then Inr st
        else
          (case val of
             JArr xs \<Rightarrow> Inl TypeError
           | JStr s \<Rightarrow>
               (case map_of (translations_tab st) lang of
                  Some data \<Rightarrow>
                    Inr (st\<lparr>translations_tab :=
                               obj_put lang (obj_assign rawKey (safeValue s) data)
                                 (translations_tab st),
                            languages := set_add lang (languages st)\<rparr>)
                | None \<Rightarrow>
                    if lang \<in> set object_prototype_names then
                      (if rejects_store lang rawKey then Inl TypeError
                       else
                         Inr (st\<lparr>languages := set_add lang (languages st),
                                 entries_intact :=
                                   entries_intact st
                                   \<and> \<not> (lang = ''constructor'' \<and> rawKey = ''entries'')\<rparr>))
                    else
                      Inr (st\<lparr>translations_tab :=
                                 obj_put lang (obj_assign rawKey (safeValue s) [])
                                   (translations_tab st),
                              languages := set_add lang (languages st)\<rparr>))))"

fun process_entries :: "string \<Rightarrow> state \<Rightarrow> sheet_row \<Rightarrow> stop + state" where
  "process_entries rawKey st [] = Inr st"
| "process_entries rawKey st (e # es) =
     (case process_entry rawKey st e of
        Inl err \<Rightarrow> Inl err
      | Inr st' \<Rightarrow> process_entries rawKey st' es)"

text \<open>
  The body of the outer loop (lines 42 to 64) for one row. Line 49 calls
  \<^verbatim>\<open>Object.entries\<close>, after the key is registered.
\<close>

definition process_row :: "state \<Rightarrow> sheet_row \<Rightarrow> stop + state" where
  "process_row st r =
     (case map_of r ''key'' of
        None \<Rightarrow> Inr st
      | Some (JArr xs) \<Rightarrow> Inl TypeError
      | Some (JStr s) \<Rightarrow>
          (let rawKey = trim s in
           if rawKey = [] then Inr st
           else if entries_intact st then
             process_entries rawKey (st\<lparr>keyMap := obj_assign rawKey rawKey (keyMap st)\<rparr>) r
           else Inl TypeError))"

fun process_rows :: "state \<Rightarrow> sheet_row list \<Rightarrow> stop + state" where
  "process_rows st [] = Inr st"
| "process_rows st (r # rs) =
     (case process_row st r of
        Inl err \<Rightarrow> Inl err
      | Inr st' \<Rightarrow> process_rows st' rs)"

definition transform :: "sheet_row list \<Rightarrow> stop + state" where
  "transform rows = process_rows init rows"

section \<open>Steps 6 to 9: the files\<close>

text \<open>
  \<^verbatim>\<open>JSON.stringify(x, null, 2)\<close> for the two shapes the script passes: an object whose
  values are strings, and an array of strings. A string is quoted with the escapes of
  \<^verbatim>\<open>JSON.stringify\<close>: the double quote, the backslash and the code units below 32.
\<close>

definition hex_digit :: "nat \<Rightarrow> char" where
  "hex_digit n = ''0123456789abcdef'' ! (n mod 16)"

definition json_char :: "char \<Rightarrow> string" where
  "json_char c =
     (if c = dquote then [bslash, dquote]
      else if c = bslash then [bslash, bslash]
      else if c = CHR 0x08 then [bslash, CHR ''b'']
      else if c = CHR 0x0C then [bslash, CHR ''f'']
      else if c = lf then [bslash, CHR ''n'']
      else if c = cr then [bslash, CHR ''r'']
      else if c = CHR 0x09 then [bslash, CHR ''t'']
      else if (of_char c :: nat) < 32 then
        bslash # ''u00'' @ [hex_digit ((of_char c :: nat) div 16), hex_digit (of_char c)]
      else [c])"

definition json_string :: "string \<Rightarrow> string" where
  "json_string s = dquote # concat (map json_char s) @ [dquote]"

fun join_lines :: "string list \<Rightarrow> string" where
  "join_lines [] = []"
| "join_lines [x] = x"
| "join_lines (x # y # ys) = x @ CHR '','' # lf # join_lines (y # ys)"

definition stringify_obj :: "string obj \<Rightarrow> string" where
  "stringify_obj ob =
     (if ob = [] then ''{}''
      else CHR ''{'' # lf #
        join_lines (map (\<lambda>(k, v). ''  '' @ json_string k @ '': '' @ json_string v) ob)
        @ [lf, CHR ''}''])"

definition stringify_arr :: "string list \<Rightarrow> string" where
  "stringify_arr xs =
     (if xs = [] then ''[]''
      else CHR ''['' # lf # join_lines (map (\<lambda>x. ''  '' @ json_string x) xs)
        @ [lf, CHR '']''])"

text \<open>
  \<^verbatim>\<open>path.join\<close> on a POSIX system: the arguments are joined by a slash and the result
  is normalised, dropping empty and \<^verbatim>\<open>.\<close> segments and resolving \<^verbatim>\<open>..\<close> against
  the segment before it. The paths of the script are relative and end in a file name.
\<close>

fun split_on :: "char \<Rightarrow> string \<Rightarrow> string list" where
  "split_on d [] = [[]]"
| "split_on d (c # cs) =
     (if c = d then [] # split_on d cs
      else (case split_on d cs of
              [] \<Rightarrow> [[c]]
            | x # xs \<Rightarrow> (c # x) # xs))"

fun normalize_segments :: "string list \<Rightarrow> string list \<Rightarrow> string list" where
  "normalize_segments acc [] = rev acc"
| "normalize_segments acc (s # ss) =
     (if s = [] \<or> s = ''.'' then normalize_segments acc ss
      else if s = ''..'' then
        (case acc of
           [] \<Rightarrow> normalize_segments [''..''] ss
         | t # ts \<Rightarrow>
             if t = ''..'' then normalize_segments (''..'' # acc) ss
             else normalize_segments ts ss)
      else normalize_segments (s # acc) ss)"

fun join_slash :: "string list \<Rightarrow> string" where
  "join_slash [] = []"
| "join_slash [x] = x"
| "join_slash (x # y # ys) = x @ CHR ''/'' # join_slash (y # ys)"

definition path_join :: "string \<Rightarrow> string \<Rightarrow> string" where
  "path_join dir name =
     join_slash (normalize_segments [] (split_on CHR ''/'' (dir @ CHR ''/'' # name)))"

definition outputDir :: string where
  "outputDir = path_join ''src'' (path_join ''i18n'' ''locales'')"

text \<open>
  The calls of \<^verbatim>\<open>fs.writeFileSync\<close> in the order the script sets out to make them,
  each as the path and the text written: one per own property of \<^verbatim>\<open>translations\<close>,
  then \<^verbatim>\<open>keys.json\<close>, then \<^verbatim>\<open>languages.json\<close>.
\<close>

definition language_writes :: "state \<Rightarrow> (string \<times> string) list" where
  "language_writes st =
     map (\<lambda>(lang, data). (path_join outputDir (lang @ ''.json''), stringify_obj data))
       (translations_tab st)"

definition write_files :: "state \<Rightarrow> (string \<times> string) list" where
  "write_files st =
     language_writes st @
     [(path_join outputDir ''keys.json'', stringify_obj (keyMap st)),
      (path_join outputDir ''languages.json'', stringify_arr (languages st))]"

text \<open>
  The script from the parsed rows on, as far as the calls of \<^verbatim>\<open>fs.writeFileSync\<close> it
  sets out to make: the loop, then line 72, which calls \<^verbatim>\<open>Object.entries\<close>, then the
  writes. A run that stops in the loop or at line 72 has written nothing.
\<close>

definition generateTranslations :: "sheet_row list \<Rightarrow> stop + (string \<times> string) list" where
  "generateTranslations rows =
     (case transform rows of
        Inl err \<Rightarrow> Inl err
      | Inr st \<Rightarrow> if entries_intact st then Inr (write_files st) else Inl TypeError)"

text \<open>
  The file system, as far as the script meets it: whether \<^verbatim>\<open>fs.mkdirSync\<close> of the output
  directory succeeds, and for each path whether \<^verbatim>\<open>fs.writeFileSync\<close> to it succeeds (the
  parent directory exists, the path is not a directory, permissions and limits allow it).
\<close>

record env =
  mkdir_ok :: bool
  write_ok :: "string \<Rightarrow> bool"

text \<open>The files under their paths. A write that succeeds replaces the whole file.\<close>

type_synonym files = "string \<rightharpoonup> string"

text \<open>
  The writes in order. The first one the file system refuses raises, and the script ends
  there: the files written before stay, the remaining writes are not made.
\<close>

fun apply_writes :: "env \<Rightarrow> (string \<times> string) list \<Rightarrow> files \<Rightarrow> stop option \<times> files" where
  "apply_writes ev [] fs = (None, fs)"
| "apply_writes ev ((p, body) # ws) fs =
     (if write_ok ev p then apply_writes ev ws (fs(p \<mapsto> body)) else (Some FsError, fs))"

text \<open>
  A run: the loop (lines 41 to 65), the directory (line 69), line 72, the writes (lines 72
  to 90). The result is how the run stopped, \<open>None\<close> for a run that reached its end, and
  the files after it.
\<close>

definition run :: "env \<Rightarrow> sheet_row list \<Rightarrow> files \<Rightarrow> stop option \<times> files" where
  "run ev rows fs =
     (case transform rows of
        Inl err \<Rightarrow> (Some err, fs)
      | Inr st \<Rightarrow>
          if \<not> mkdir_ok ev then (Some FsError, fs)
          else if \<not> entries_intact st then (Some TypeError, fs)
          else apply_writes ev (write_files st) fs)"

section \<open>Step 3: the parser\<close>

text \<open>
  \<^verbatim>\<open>Papa.parse(text, { header: true }).data\<close> is the papaparse library. It is followed
  here on the texts that hold no double quote, no carriage return and none of the other
  delimiters the library guesses (tab, bar, semicolon, record and unit separator), and
  whose header names are distinct and other than \<^verbatim>\<open>__parsed_extra\<close> and
  \<^verbatim>\<open>__proto__\<close>. There the
  library splits the text at line feeds and each line at commas, takes the first line as
  the header, and builds each row by assigning the fields to the header names in order,
  collecting fields beyond the header under \<^verbatim>\<open>__parsed_extra\<close>. On any other text the
  result is \<open>None\<close>.
\<close>

definition simple_text :: "string \<Rightarrow> bool" where
  "simple_text t =
     list_all (\<lambda>c. c \<notin> set [dquote, cr, CHR 0x09, CHR ''|'', CHR '';'', CHR 0x1E, CHR 0x1F]) t"

definition header_fields :: "string \<Rightarrow> string list" where
  "header_fields t = split_on CHR '','' (hd (split_on lf t))"

fun build_row :: "string list \<Rightarrow> string list \<Rightarrow> sheet_row \<Rightarrow> sheet_row" where
  "build_row hs [] r = r"
| "build_row [] (f # fs) r = obj_put ''__parsed_extra'' (JArr (f # fs)) r"
| "build_row (h # hs) (f # fs) r = build_row hs fs (obj_put h (JStr f) r)"

definition papa_parse :: "string \<Rightarrow> sheet_row list option" where
  "papa_parse t =
     (if t = [] then Some []
      else if simple_text t \<and> distinct (header_fields t)
              \<and> ''__parsed_extra'' \<notin> set (header_fields t)
              \<and> ''__proto__'' \<notin> set (header_fields t) then
        Some (map (\<lambda>l. build_row (header_fields t) (split_on CHR '','' l) [])
               (tl (split_on lf t)))
      else None)"


section \<open>Notions the properties are stated with\<close>

text \<open>\<^verbatim>\<open>translations[lang][key]\<close>, read from the own properties.\<close>

definition tr_lookup :: "state \<Rightarrow> string \<Rightarrow> string \<Rightarrow> string option" where
  "tr_lookup st lang k =
     (case map_of (translations_tab st) lang of None \<Rightarrow> None | Some data \<Rightarrow> map_of data k)"

text \<open>A record whose \<^verbatim>\<open>key\<close> cell is absent, empty or only white space.\<close>

definition blank_key :: "sheet_row \<Rightarrow> bool" where
  "blank_key r =
     (case map_of r ''key'' of
        None \<Rightarrow> True
      | Some (JStr s) \<Rightarrow> list_all is_space s
      | Some (JArr xs) \<Rightarrow> False)"


text \<open>The columns of a row, other than \<^verbatim>\<open>key\<close>, whose cell is not empty.\<close>

definition filled_cells :: "sheet_row \<Rightarrow> string list" where
  "filled_cells r = map fst (filter (\<lambda>(c, v). c \<noteq> ''key'' \<and> truthy v) r)"

text \<open>The languages with a non-empty cell on some row whose key is not blank.\<close>

definition filled_languages :: "sheet_row list \<Rightarrow> string list" where
  "filled_languages rows = concat (map filled_cells (filter (\<lambda>r. \<not> blank_key r) rows))"

text \<open>The members of a list in the order of their first occurrence.\<close>

definition first_seen :: "string list \<Rightarrow> string list" where
  "first_seen xs = fold set_add xs []"

text \<open>The trimmed keys of the rows that are not skipped, in row order.\<close>

definition kept_keys :: "sheet_row list \<Rightarrow> string list" where
  "kept_keys rows =
     concat (map (\<lambda>r. case map_of r ''key'' of
                          Some (JStr s) \<Rightarrow> if trim s = [] then [] else [trim s]
                        | _ \<Rightarrow> []) rows)"

text \<open>The keys of the rows with a non-empty cell in column \<open>lang\<close>, in row order.\<close>

definition keys_of_language :: "string \<Rightarrow> sheet_row list \<Rightarrow> string list" where
  "keys_of_language lang rows =
     concat (map (\<lambda>r. if lang \<in> set (filled_cells r) then kept_keys [r] else []) rows)"

text \<open>The keys of \<^verbatim>\<open>translations[lang]\<close> in enumeration order, none if there is no such map.\<close>

definition language_keys :: "state \<Rightarrow> string \<Rightarrow> string list" where
  "language_keys st lang =
     map fst (case map_of (translations_tab st) lang of None \<Rightarrow> [] | Some data \<Rightarrow> data)"

text \<open>
  One pass over the cell that escapes each character once: a backslash becomes two
  backslashes, a double quote becomes backslash, double quote, a line feed or a carriage
  return with its line feed becomes backslash, n, and every other character is kept.
\<close>

fun escape_once :: "string \<Rightarrow> string" where
  "escape_once [] = []"
| "escape_once (c # cs) =
     (if c = bslash then bslash # bslash # escape_once cs
      else if c = dquote then bslash # dquote # escape_once cs
      else if c = lf then bslash # CHR ''n'' # escape_once cs
      else if c = cr then
        (case cs of
           [] \<Rightarrow> [c]
         | d # ds \<Rightarrow>
             if d = lf then bslash # CHR ''n'' # escape_once ds
             else c # escape_once cs)
      else c # escape_once cs)"

text \<open>The names that are array indices, the other names, and the number an index stands for.\<close>

definition index_keys :: "string list \<Rightarrow> string list" where
  "index_keys ks = filter (\<lambda>k. array_index k \<noteq> None) ks"

definition name_keys :: "string list \<Rightarrow> string list" where
  "name_keys ks = filter (\<lambda>k. array_index k = None) ks"

definition index_of :: "string \<Rightarrow> int" where
  "index_of k = (case array_index k of Some i \<Rightarrow> i | None \<Rightarrow> 0)"

text \<open>A file system that accepts everything, and one that refuses the writes to one path.\<close>

definition all_ok :: env where
  "all_ok = \<lparr>mkdir_ok = True, write_ok = (\<lambda>p. True)\<rparr>"


text \<open>The files after all of the writes \<open>ws\<close> were made.\<close>

definition write_all :: "(string \<times> string) list \<Rightarrow> files \<Rightarrow> files" where
  "write_all ws fs = fs ++ map_of (rev ws)"

text \<open>The writes of \<open>ws\<close> up to the first one the file system refuses.\<close>

definition accepted :: "env \<Rightarrow> (string \<times> string) list \<Rightarrow> (string \<times> string) list" where
  "accepted ev ws = takeWhile (\<lambda>w. write_ok ev (fst w)) ws"

text \<open>
  The languages that get an own property in \<^verbatim>\<open>translations\<close>, the keys that get one in
  \<^verbatim>\<open>keyMap\<close>, and the keys that get one in the map of \<open>lang\<close>, each in input order: a
  store under the name \<^verbatim>\<open>__proto__\<close> creates no property, and a language named like a
  property of \<^verbatim>\<open>Object.prototype\<close> gets no map.
\<close>

definition stored_languages :: "sheet_row list \<Rightarrow> string list" where
  "stored_languages rows =
     filter (\<lambda>lang. lang \<notin> set object_prototype_names) (filled_languages rows)"

definition stored_keys :: "sheet_row list \<Rightarrow> string list" where
  "stored_keys rows = filter (\<lambda>k. k \<noteq> ''__proto__'') (kept_keys rows)"

definition stored_keys_of_language :: "string \<Rightarrow> sheet_row list \<Rightarrow> string list" where
  "stored_keys_of_language lang rows =
     (if lang \<in> set object_prototype_names then []
      else filter (\<lambda>k. k \<noteq> ''__proto__'') (keys_of_language lang rows))"

text \<open>
  \<open>ks\<close> is the enumeration of the property names that were stored in the order \<open>src\<close>:
  the same names, none twice, the array indices first in ascending order, then the other
  names in the order of their first store.
\<close>

definition enumerates :: "string list \<Rightarrow> string list \<Rightarrow> bool" where
  "enumerates ks src =
     (set ks = set src \<and> distinct ks
      \<and> ks = index_keys ks @ name_keys ks
      \<and> sorted (map index_of (index_keys ks))
      \<and> name_keys ks = first_seen (name_keys src))"

text \<open>
  \<^verbatim>\<open>translations\<close> has no own property named like a property of \<^verbatim>\<open>Object.prototype\<close>.
\<close>

definition proto_free :: "state \<Rightarrow> bool" where
  "proto_free st = (set (map fst (translations_tab st)) \<inter> set object_prototype_names = {})"

text \<open>
  The enumeration order of an object's own property names: no name twice, and no name
  after one that it would have to come before.
\<close>

fun ordered_names :: "string list \<Rightarrow> bool" where
  "ordered_names [] = True"
| "ordered_names (k # ks) =
     (k \<notin> set ks \<and> list_all (\<lambda>k'. \<not> comes_before k' k) ks \<and> ordered_names ks)"

text \<open>
  What holds of the names \<open>ks\<close> of an object while the names \<open>src\<close> are stored in it one
  after the other.
\<close>

definition tracks :: "string list \<Rightarrow> string list \<Rightarrow> bool" where
  "tracks ks src =
     (ordered_names ks \<and> set ks = set src \<and> name_keys ks = first_seen (name_keys src))"

text \<open>
  What lines 53 to 63 do to the containers for a non-empty string cell \<open>s\<close> in column
  \<open>lang\<close> of a row with key \<open>k\<close>, when \<^verbatim>\<open>translations[lang]\<close> is an own property
  or gets created.
\<close>

definition store :: "string \<Rightarrow> state \<Rightarrow> string \<Rightarrow> string \<Rightarrow> state" where
  "store k st lang s =
     st\<lparr>translations_tab :=
          obj_put lang
            (obj_assign k (safeValue s)
               (case map_of (translations_tab st) lang of None \<Rightarrow> [] | Some d \<Rightarrow> d))
            (translations_tab st),
        languages := set_add lang (languages st)\<rparr>"

text \<open>What lines 53 to 63 do when the store lands on an inherited built-in and succeeds.\<close>

definition builtin_store :: "string \<Rightarrow> state \<Rightarrow> string \<Rightarrow> state" where
  "builtin_store k st lang =
     st\<lparr>languages := set_add lang (languages st),
        entries_intact :=
          entries_intact st \<and> \<not> (lang = ''constructor'' \<and> k = ''entries'')\<rparr>"

section \<open>Escaping\<close>

lemma replace_backslash_append:
  "replace_backslash (xs @ ys) = replace_backslash xs @ replace_backslash ys"
  by (induction xs) simp_all

lemma replace_quote_append:
  "replace_quote (xs @ ys) = replace_quote xs @ replace_quote ys"
  by (induction xs) simp_all

text \<open>The newline pass distributes over a split that does not cut a CR+LF pair.\<close>

lemma replace_newline_append:
  "ys = [] \<or> hd ys \<noteq> lf \<Longrightarrow>
   replace_newline (xs @ ys) = replace_newline xs @ replace_newline ys"
proof (induction xs rule: replace_newline.induct)
  case 1
  then show ?case by simp
next
  case (2 c cs)
  then show ?case by (cases cs; cases ys) (auto split: list.splits)
qed

lemma replace_newline_crlf:
  "replace_newline (xs @ cr # lf # ys) =
   replace_newline xs @ bslash # CHR ''n'' # replace_newline ys"
proof (induction xs rule: replace_newline.induct)
  case 1
  then show ?case by simp
next
  case (2 c cs)
  then show ?case by (cases cs) (auto split: list.splits)
qed

lemma lf_notin_replace_newline: "lf \<notin> set (replace_newline s)"
  by (induction s rule: replace_newline.induct) (auto split: list.splits)

lemma dropWhile_keeps: "\<not> P a \<Longrightarrow> \<exists>p'. dropWhile P (p @ a # r) = p' @ a # r"
  by (induction p) auto

text \<open>Trimming cannot reach into a stretch that starts and ends with a non-space.\<close>

lemma trim_keeps_middle:
  assumes "\<not> is_space a" and "\<not> is_space b"
  shows "\<exists>p' q'. trim (p @ a # m @ b # q) = p' @ a # m @ b # q'"
proof -
  obtain p' where p': "dropWhile is_space (p @ a # (m @ b # q)) = p' @ a # (m @ b # q)"
    using dropWhile_keeps [of is_space a p "m @ b # q"] assms(1) by blast
  obtain q' where
    q': "dropWhile is_space (rev q @ b # rev (p' @ a # m)) = q' @ b # rev (p' @ a # m)"
    using dropWhile_keeps [of is_space b "rev q" "rev (p' @ a # m)"] assms(2) by blast
  have "trim (p @ a # m @ b # q) = rev (dropWhile is_space (rev q @ b # rev (p' @ a # m)))"
    by (simp add: trim_def p')
  also have "\<dots> = rev (q' @ b # rev (p' @ a # m))"
    by (simp only: q')
  also have "\<dots> = p' @ a # m @ b # rev q'"
    by simp
  finally show ?thesis by blast
qed

lemma set_trim: "set (trim s) \<subseteq> set s"
  unfolding trim_def by (metis set_rev set_dropWhileD subsetI)

lemma lf_notin_safeValue: "lf \<notin> set (safeValue v)"
  using set_trim lf_notin_replace_newline unfolding safeValue_def by blast

lemma safeValue_backslash_quote:
  "\<exists>a b. safeValue (p @ [bslash, dquote] @ q) = a @ [bslash, bslash, bslash, dquote] @ b"
proof -
  let ?esc = "\<lambda>s. replace_newline (replace_quote (replace_backslash s))"
  have "?esc (p @ [bslash, dquote] @ q) =
        ?esc p @ bslash # [bslash, bslash] @ dquote # ?esc q"
    by (simp add: replace_backslash_append replace_quote_append replace_newline_append)
  moreover have "\<not> is_space bslash" "\<not> is_space dquote"
    by (simp_all add: is_space_def)
  ultimately show ?thesis
    using trim_keeps_middle [of bslash dquote "?esc p" "[bslash, bslash]" "?esc q"]
    by (auto simp: safeValue_def)
qed

lemma safeValue_embedded_crlf:
  "\<exists>a b. safeValue (p @ [cr, lf] @ q) = a @ [bslash, CHR ''n''] @ b"
proof -
  let ?esc = "\<lambda>s. replace_newline (replace_quote (replace_backslash s))"
  have "?esc (p @ [cr, lf] @ q) = ?esc p @ bslash # [] @ CHR ''n'' # ?esc q"
    by (simp add: replace_backslash_append replace_quote_append replace_newline_crlf)
  moreover have "\<not> is_space bslash" "\<not> is_space CHR ''n''"
    by (simp_all add: is_space_def)
  ultimately show ?thesis
    using trim_keeps_middle [of bslash "CHR ''n''" "?esc p" "[]" "?esc q"]
    by (auto simp: safeValue_def)
qed

lemma replace_newline_Cons_other:
  "c \<noteq> lf \<Longrightarrow> cs = [] \<or> hd cs \<noteq> lf \<Longrightarrow> replace_newline (c # cs) = c # replace_newline cs"
  by (cases cs) auto

lemma hd_quote_backslash:
  "d \<noteq> lf \<Longrightarrow> hd (replace_quote (replace_backslash (d # ds))) \<noteq> lf"
  by simp

text \<open>The three passes in the order of the script escape each character exactly once.\<close>

lemma three_passes_once:
  "replace_newline (replace_quote (replace_backslash v)) = escape_once v"
proof (induction v)
  case Nil
  then show ?case by simp
next
  case (Cons c cs)
  let ?E = "\<lambda>s. replace_newline (replace_quote (replace_backslash s))"
  note IH = Cons.IH
  consider (bs) "c = bslash" | (dq) "c = dquote" | (nl) "c = lf" | (ret) "c = cr"
    | (other) "c \<noteq> bslash" "c \<noteq> dquote" "c \<noteq> lf" "c \<noteq> cr"
    by blast
  then show ?case
  proof cases
    case bs
    then show ?thesis using IH by simp
  next
    case dq
    then show ?thesis using IH by simp
  next
    case nl
    then show ?thesis using IH by simp
  next
    case ret
    show ?thesis
    proof (cases cs)
      case Nil
      then show ?thesis using ret by simp
    next
      case (Cons d ds)
      show ?thesis
      proof (cases "d = lf")
        case True
        have "?E (lf # ds) = escape_once (lf # ds)"
          using IH Cons True by simp
        then have "?E ds = escape_once ds" by simp
        then show ?thesis using ret Cons True by simp
      next
        case False
        have "hd (replace_quote (replace_backslash cs)) \<noteq> lf"
          using hd_quote_backslash [OF False] Cons by simp
        then have "replace_newline (cr # replace_quote (replace_backslash cs))
            = cr # ?E cs"
          using replace_newline_Cons_other [of cr "replace_quote (replace_backslash cs)"]
          by simp
        moreover have "escape_once (cr # cs) = cr # escape_once cs"
          using Cons False by simp
        ultimately show ?thesis using ret IH by simp
      qed
    qed
  next
    case other
    have "cs = [] \<or> hd (replace_quote (replace_backslash cs)) \<noteq> lf
        \<or> hd (replace_quote (replace_backslash cs)) = lf"
      by blast
    have "?E (c # cs) = replace_newline (c # replace_quote (replace_backslash cs))"
      using other by simp
    also have "\<dots> = c # ?E cs"
      using other by (cases "replace_quote (replace_backslash cs)") simp_all
    finally show ?thesis using other IH by simp
  qed
qed

text \<open>What trimming removes is white space at the two ends, and it leaves none there.\<close>

lemma rev_dropWhile_split:
  "xs = rev (dropWhile P (rev xs)) @ rev (takeWhile P (rev xs))"
proof -
  have "rev (takeWhile P (rev xs) @ dropWhile P (rev xs)) = xs"
    by (simp only: takeWhile_dropWhile_id rev_rev_ident)
  then show ?thesis
    by (simp only: rev_append)
qed

lemma trim_decomposition:
  "\<exists>a b. s = a @ trim s @ b \<and> list_all is_space a \<and> list_all is_space b"
proof -
  let ?d = "dropWhile is_space s"
  have 1: "s = takeWhile is_space s @ ?d" by simp
  have 2: "?d = trim s @ rev (takeWhile is_space (rev ?d))"
    using rev_dropWhile_split [of ?d is_space] by (simp only: trim_def)
  have "s = takeWhile is_space s @ trim s @ rev (takeWhile is_space (rev ?d))"
    using 1 2 by metis
  moreover have "list_all is_space (takeWhile is_space s)"
    by (simp add: list_all_iff) (meson set_takeWhileD)
  moreover have "list_all is_space (rev (takeWhile is_space (rev ?d)))"
    by (simp add: list_all_iff) (meson set_takeWhileD)
  ultimately show ?thesis by blast
qed

lemma last_dropWhile: "dropWhile P xs \<noteq> [] \<Longrightarrow> last (dropWhile P xs) = last xs"
  by (induction xs) (auto split: if_splits)

lemma trim_ends:
  "trim s = [] \<or> (\<not> is_space (hd (trim s)) \<and> \<not> is_space (last (trim s)))"
proof (cases "trim s = []")
  case True
  then show ?thesis by simp
next
  case False
  let ?d = "dropWhile is_space s"
  let ?e = "dropWhile is_space (rev ?d)"
  have t: "trim s = rev ?e" by (simp add: trim_def)
  with False have e: "?e \<noteq> []" by simp
  then have d: "?d \<noteq> []" by (metis dropWhile.simps(1) rev.simps(1))
  have "last (trim s) = hd ?e"
    using e t by (simp add: last_rev)
  moreover have "\<not> is_space (hd ?e)"
    using e by (rule hd_dropWhile)
  moreover have "hd (trim s) = last ?e"
    using e t by (simp add: hd_rev)
  moreover have "last ?e = last (rev ?d)"
    using e by (rule last_dropWhile)
  moreover have "last (rev ?d) = hd ?d"
    using d by (simp add: last_rev)
  moreover have "\<not> is_space (hd ?d)"
    using d by (rule hd_dropWhile)
  ultimately show ?thesis by simp
qed

text \<open>
  C2. The stored value is obtained from the cell by the backslash pass, then the quote
  pass, then the newline pass, then the trim. In that order the three passes escape each
  character of the cell exactly once: they agree with the single pass \<open>escape_once\<close> on
  every cell, a carriage return with its line feed giving one backslash, n and a carriage
  return alone staying. The trim removes white space at the two ends of that result and
  nothing else, and leaves no white space at either end. Whatever surrounds it, a
  backslash followed by a double quote in the cell shows up in the stored string as three
  backslashes followed by the double quote; that two-character cell is stored as exactly
  those four characters, also when blanks surround it, and not as backslash, backslash,
  double quote. Other orders give other strings: quoting before doubling the backslashes
  gives four backslashes, and replacing newlines before doubling the backslashes doubles
  the backslash of the newline escape.
\<close>

theorem safeValue_order:
  "safeValue v = trim (replace_newline (replace_quote (replace_backslash v)))
   \<and> replace_newline (replace_quote (replace_backslash v)) = escape_once v
   \<and> (\<exists>a b. escape_once v = a @ safeValue v @ b \<and> list_all is_space a \<and> list_all is_space b)
   \<and> (safeValue v = [] \<or> (\<not> is_space (hd (safeValue v)) \<and> \<not> is_space (last (safeValue v))))
   \<and> (\<exists>a b. safeValue (p @ [bslash, dquote] @ q) = a @ [bslash, bslash, bslash, dquote] @ b)
   \<and> safeValue [bslash, dquote] = [bslash, bslash, bslash, dquote]
   \<and> safeValue [bslash, dquote] \<noteq> [bslash, bslash, dquote]
   \<and> safeValue ('' '' @ [bslash, dquote] @ '' '') = [bslash, bslash, bslash, dquote]
   \<and> safeValue (''a'' @ [cr, lf] @ ''b'') = ''a'' @ [bslash] @ ''nb''
   \<and> safeValue (''a'' @ [cr] @ ''b'') = ''a'' @ [cr] @ ''b''
   \<and> safeValue ([lf] @ '' a  b '' @ [cr]) = [bslash] @ ''n a  b''
   \<and> trim (replace_newline (replace_backslash (replace_quote [bslash, dquote])))
       = [bslash, bslash, bslash, bslash, dquote]
   \<and> safeValue [CHR ''a'', lf, CHR ''b''] = [CHR ''a'', bslash, CHR ''n'', CHR ''b'']
   \<and> trim (replace_quote (replace_backslash (replace_newline [CHR ''a'', lf, CHR ''b''])))
       = [CHR ''a'', bslash, bslash, CHR ''n'', CHR ''b'']"
proof -
  have 1: "replace_newline (replace_quote (replace_backslash v)) = escape_once v"
    by (rule three_passes_once)
  have 2: "\<exists>a b. escape_once v = a @ safeValue v @ b \<and> list_all is_space a \<and> list_all is_space b"
    using trim_decomposition [of "escape_once v"] by (simp add: safeValue_def 1)
  have 3: "safeValue v = [] \<or> (\<not> is_space (hd (safeValue v)) \<and> \<not> is_space (last (safeValue v)))"
    using trim_ends [of "escape_once v"] by (simp add: safeValue_def 1)
  have 4: "safeValue [bslash, dquote] = [bslash, bslash, bslash, dquote]"
    by code_simp
  have 5: "safeValue [bslash, dquote] \<noteq> [bslash, bslash, dquote]"
    by code_simp
  have 6: "safeValue ('' '' @ [bslash, dquote] @ '' '') = [bslash, bslash, bslash, dquote]"
    by code_simp
  have 7: "safeValue (''a'' @ [cr, lf] @ ''b'') = ''a'' @ [bslash] @ ''nb''"
    by code_simp
  have 8: "safeValue (''a'' @ [cr] @ ''b'') = ''a'' @ [cr] @ ''b''"
    by code_simp
  have 9: "safeValue ([lf] @ '' a  b '' @ [cr]) = [bslash] @ ''n a  b''"
    by code_simp
  have 10: "trim (replace_newline (replace_backslash (replace_quote [bslash, dquote])))
       = [bslash, bslash, bslash, bslash, dquote]"
    by code_simp
  have 11: "safeValue [CHR ''a'', lf, CHR ''b''] = [CHR ''a'', bslash, CHR ''n'', CHR ''b'']"
    by code_simp
  have 12: "trim (replace_quote (replace_backslash (replace_newline [CHR ''a'', lf, CHR ''b''])))
       = [CHR ''a'', bslash, bslash, CHR ''n'', CHR ''b'']"
    by code_simp
  have 0: "safeValue v = trim (replace_newline (replace_quote (replace_backslash v)))"
    by (simp only: safeValue_def)
  show ?thesis
    using 0 1 2 3 safeValue_backslash_quote [of p q] 4 5 6 7 8 9 10 11 12
    by (intro conjI)
qed

text \<open>
  C7, as the claim words it: the escaped form of line1, CR, LF, line2 would have 13
  characters. It has 12.
\<close>

theorem safeValue_crlf_not_13:
  "length (safeValue (''line1'' @ [cr, lf] @ ''line2'')) = 12
   \<and> length (safeValue (''line1'' @ [cr, lf] @ ''line2'')) \<noteq> 13"
  by code_simp

text \<open>
  C7, amended. The cell line1, CR, LF, line2 is stored as the 12-character string line1,
  backslash, n, line2, which holds neither a line feed nor a carriage return. In every
  cell value an embedded CR+LF pair is replaced by backslash, n, which survives the
  trim, and no stored value holds a line feed.
\<close>

theorem safeValue_crlf:
  "safeValue (''line1'' @ [cr, lf] @ ''line2'') = ''line1'' @ [bslash, CHR ''n''] @ ''line2''
   \<and> length (safeValue (''line1'' @ [cr, lf] @ ''line2'')) = 12
   \<and> lf \<notin> set (safeValue (''line1'' @ [cr, lf] @ ''line2''))
   \<and> cr \<notin> set (safeValue (''line1'' @ [cr, lf] @ ''line2''))
   \<and> replace_newline (p @ [cr, lf] @ q) =
       replace_newline p @ [bslash, CHR ''n''] @ replace_newline q
   \<and> (\<exists>a b. safeValue (p @ [cr, lf] @ q) = a @ [bslash, CHR ''n''] @ b)
   \<and> lf \<notin> set (safeValue v)"
proof -
  have "safeValue (''line1'' @ [cr, lf] @ ''line2'') = ''line1'' @ [bslash, CHR ''n''] @ ''line2''"
    by code_simp
  moreover have "length (safeValue (''line1'' @ [cr, lf] @ ''line2'')) = 12"
    by code_simp
  moreover have "cr \<notin> set (safeValue (''line1'' @ [cr, lf] @ ''line2''))"
    by code_simp
  moreover have "replace_newline (p @ [cr, lf] @ q) =
       replace_newline p @ [bslash, CHR ''n''] @ replace_newline q"
    using replace_newline_crlf [of p q] by simp
  ultimately show ?thesis
    using safeValue_embedded_crlf [of p q] lf_notin_safeValue by blast
qed

section \<open>Objects and the loop body\<close>

lemma map_of_obj_put: "map_of (obj_put k v ob) = (map_of ob)(k \<mapsto> v)"
  by (induction ob) (auto simp: fun_upd_twist)

lemma keys_obj_put: "set (map fst (obj_put k v ob)) = insert k (set (map fst ob))"
  by (induction ob) (force split: if_splits)+

lemma fst_set_obj_put: "fst ` set (obj_put k v ob) = insert k (fst ` set ob)"
  using keys_obj_put [of k v ob] by simp

lemma comes_before_cases:
  "comes_before k k' = (\<exists>i. array_index k = Some i \<and> (array_index k' = None \<or> (\<exists>j. array_index k' = Some j \<and> i < j)))"
  by (auto simp: comes_before_def split: option.splits)

lemma ordered_names_obj_put:
  "ordered_names (map fst ob) \<Longrightarrow> ordered_names (map fst (obj_put k v ob))"
proof (induction ob)
  case Nil
  then show ?case by simp
next
  case (Cons a ob)
  obtain k' v' where a: "a = (k', v')" by (cases a)
  show ?case
  proof (cases "k = k'")
    case True
    with Cons.prems a show ?thesis by simp
  next
    case neq: False
    show ?thesis
    proof (cases "comes_before k k'")
      case True
      have "k \<notin> fst ` set ob"
        using Cons.prems a True
        by (force simp: list_all_iff comes_before_cases)
      moreover have "list_all (\<lambda>k''. \<not> comes_before k'' k) (k' # map fst ob)"
        using Cons.prems a True
        by (force simp: list_all_iff comes_before_cases)
      ultimately show ?thesis
        using Cons.prems a True neq by simp
    next
      case False
      have "ordered_names (map fst (obj_put k v ob))"
        using Cons.IH Cons.prems a by simp
      moreover have "k' \<notin> fst ` set (obj_put k v ob)"
        using Cons.prems a neq by (simp add: fst_set_obj_put)
      moreover have "list_all (\<lambda>k''. \<not> comes_before k'' k') (map fst (obj_put k v ob))"
        using Cons.prems a False
        by (auto simp: list_all_iff fst_set_obj_put)
      ultimately show ?thesis
        using a neq False by simp
    qed
  qed
qed

lemma ordered_names_distinct: "ordered_names ks \<Longrightarrow> distinct ks"
  by (induction ks) auto

lemma dropWhile_all: "(\<forall>x\<in>set (dropWhile P s). P x) \<longleftrightarrow> (\<forall>x\<in>set s. P x)"
  by (induction s) auto

lemma trim_empty_iff: "trim s = [] \<longleftrightarrow> list_all is_space s"
  by (simp add: trim_def list_all_iff dropWhile_all)

lemma process_entry_skip:
  "lang = ''key'' \<or> \<not> truthy val \<Longrightarrow> process_entry k st (lang, val) = Inr st"
  by (auto simp: process_entry_def)

lemma process_entry_store:
  "lang \<noteq> ''key'' \<Longrightarrow> s \<noteq> [] \<Longrightarrow>
   lang \<notin> set object_prototype_names \<or> map_of (translations_tab st) lang \<noteq> None \<Longrightarrow>
   process_entry k st (lang, JStr s) = Inr (store k st lang s)"
  by (auto simp: process_entry_def store_def split: option.splits)

lemma process_entry_builtin:
  "lang \<noteq> ''key'' \<Longrightarrow> s \<noteq> [] \<Longrightarrow> lang \<in> set object_prototype_names \<Longrightarrow>
   map_of (translations_tab st) lang = None \<Longrightarrow> \<not> rejects_store lang k \<Longrightarrow>
   process_entry k st (lang, JStr s) = Inr (builtin_store k st lang)"
  by (simp add: process_entry_def builtin_store_def)

text \<open>The three ways in which the loop body returns.\<close>

lemma process_entry_Inr:
  "process_entry k st (lang, val) = Inr st' \<Longrightarrow>
   (lang = ''key'' \<or> \<not> truthy val) \<and> st' = st
   \<or> (\<exists>s. val = JStr s \<and> s \<noteq> [] \<and> lang \<noteq> ''key''
         \<and> (lang \<notin> set object_prototype_names \<or> map_of (translations_tab st) lang \<noteq> None)
         \<and> st' = store k st lang s)
   \<or> (\<exists>s. val = JStr s \<and> s \<noteq> [] \<and> lang \<noteq> ''key''
         \<and> lang \<in> set object_prototype_names \<and> map_of (translations_tab st) lang = None
         \<and> st' = builtin_store k st lang)"
proof (cases "lang = ''key'' \<or> \<not> truthy val")
  case True
  assume "process_entry k st (lang, val) = Inr st'"
  with True show ?thesis by (simp add: process_entry_skip)
next
  case False
  assume a: "process_entry k st (lang, val) = Inr st'"
  from False a obtain s where s: "val = JStr s" "s \<noteq> []"
    by (cases val) (auto simp: process_entry_def)
  show ?thesis
  proof (cases "lang \<notin> set object_prototype_names \<or> map_of (translations_tab st) lang \<noteq> None")
    case True
    with False s a show ?thesis by (simp add: process_entry_store)
  next
    case no: False
    then have "\<not> rejects_store lang k"
      using a False s by (auto simp: process_entry_def split: if_splits)
    with no False s a show ?thesis by (simp add: process_entry_builtin)
  qed
qed

lemma set_set_add: "set (set_add x xs) = insert x (set xs)"
  by (auto simp: set_add_def)

lemma store_keyMap: "keyMap (store k st lang s) = keyMap st"
  by (simp add: store_def)


lemma store_other:
  "l \<noteq> lang \<Longrightarrow>
   map_of (translations_tab (store k st lang s)) l = map_of (translations_tab st) l"
  by (simp add: store_def map_of_obj_put)

lemma store_langs: "set (languages (store k st lang s)) = insert lang (set (languages st))"
  by (simp add: store_def set_set_add)

lemma store_keys:
  "set (map fst (translations_tab (store k st lang s))) =
   insert lang (set (map fst (translations_tab st)))"
  by (simp add: store_def fst_set_obj_put)

lemma store_ordered:
  "ordered_names (map fst (translations_tab st)) \<Longrightarrow>
   ordered_names (map fst (translations_tab (store k st lang s)))"
  by (simp add: store_def ordered_names_obj_put)


lemma builtin_store_simps:
  "keyMap (builtin_store k st lang) = keyMap st"
  "translations_tab (builtin_store k st lang) = translations_tab st"
  "languages (builtin_store k st lang) = set_add lang (languages st)"
  "entries_intact (builtin_store k st lang) =
     (entries_intact st \<and> \<not> (lang = ''constructor'' \<and> k = ''entries''))"
  by (simp_all add: builtin_store_def)

lemma process_entry_keyMap:
  "process_entry k st e = Inr st' \<Longrightarrow> keyMap st' = keyMap st"
  using process_entry_Inr [of k st "fst e" "snd e" st']
  by (auto simp: store_keyMap builtin_store_simps)

lemma process_entry_other:
  "process_entry k st e = Inr st' \<Longrightarrow> l \<notin> set (filled_cells [e]) \<Longrightarrow>
   map_of (translations_tab st') l = map_of (translations_tab st) l
   \<and> (l \<in> set (languages st') \<longleftrightarrow> l \<in> set (languages st))"
  using process_entry_Inr [of k st "fst e" "snd e" st']
  by (cases e) (auto simp: store_other store_langs builtin_store_simps set_set_add filled_cells_def)

lemma process_entry_langs:
  "process_entry k st e = Inr st' \<Longrightarrow>
   set (languages st') = set (languages st) \<union> set (filled_cells [e])"
  using process_entry_Inr [of k st "fst e" "snd e" st']
  by (cases e) (auto simp: store_langs builtin_store_simps set_set_add filled_cells_def)

text \<open>
  Starting without own properties named like built-ins, \<^verbatim>\<open>translations\<close> never gets one:
  its property names are the filled languages that are not such names.
\<close>

lemma process_entry_keys:
  assumes "process_entry k st e = Inr st'" and "proto_free st"
  shows "set (map fst (translations_tab st')) =
           set (map fst (translations_tab st))
           \<union> (set (filled_cells [e]) - set object_prototype_names)"
    and "proto_free st'"
proof -
  obtain lang val where e: "e = (lang, val)" by (cases e)
  have none: "lang \<in> set object_prototype_names \<Longrightarrow> map_of (translations_tab st) lang = None"
    using assms(2) by (auto simp: proto_free_def map_of_eq_None_iff)
  from process_entry_Inr [of k st lang val st'] assms(1) e
  consider (skip) "lang = ''key'' \<or> \<not> truthy val" "st' = st"
    | (own) s where "val = JStr s" "s \<noteq> []" "lang \<noteq> ''key''"
        "lang \<notin> set object_prototype_names" "st' = store k st lang s"
    | (builtin) s where "val = JStr s" "s \<noteq> []" "lang \<noteq> ''key''"
        "lang \<in> set object_prototype_names" "st' = builtin_store k st lang"
    using none by auto
  then have "set (map fst (translations_tab st')) =
           set (map fst (translations_tab st))
           \<union> (set (filled_cells [e]) - set object_prototype_names)
        \<and> proto_free st'"
  proof cases
    case skip
    then show ?thesis using e assms(2) by (auto simp: filled_cells_def)
  next
    case own
    then show ?thesis
      using e assms(2) store_keys [of k st lang s]
      by (auto simp: filled_cells_def proto_free_def)
  next
    case builtin
    then show ?thesis
      using e assms(2) by (auto simp: filled_cells_def proto_free_def builtin_store_simps)
  qed
  then show "set (map fst (translations_tab st')) =
           set (map fst (translations_tab st))
           \<union> (set (filled_cells [e]) - set object_prototype_names)"
    and "proto_free st'"
    by simp_all
qed

lemma process_entry_ordered:
  "process_entry k st e = Inr st' \<Longrightarrow> ordered_names (map fst (translations_tab st)) \<Longrightarrow>
   ordered_names (map fst (translations_tab st'))"
  using process_entry_Inr [of k st "fst e" "snd e" st'] store_ordered [of st k "fst e"]
  by (cases e) (auto simp: builtin_store_simps)


lemma filled_cells_Cons:
  "set (filled_cells (e # es)) = set (filled_cells [e]) \<union> set (filled_cells es)"
  by (auto simp: filled_cells_def)

lemma process_entries_Cons:
  "process_entries k st (e # es) = Inr st' \<Longrightarrow>
   \<exists>st1. process_entry k st e = Inr st1 \<and> process_entries k st1 es = Inr st'"
  by (auto split: sum.splits)

lemma process_entries_keyMap:
  "process_entries k st es = Inr st' \<Longrightarrow> keyMap st' = keyMap st"
  by (induction es arbitrary: st) (auto split: sum.splits dest: process_entry_keyMap)

lemma process_entries_other:
  "process_entries k st es = Inr st' \<Longrightarrow> l \<notin> set (filled_cells es) \<Longrightarrow>
   map_of (translations_tab st') l = map_of (translations_tab st) l
   \<and> (l \<in> set (languages st') \<longleftrightarrow> l \<in> set (languages st))"
proof (induction es arbitrary: st)
  case Nil
  then show ?case by simp
next
  case (Cons e es)
  from process_entries_Cons [OF Cons.prems(1)] obtain st1 where
    1: "process_entry k st e = Inr st1" and 2: "process_entries k st1 es = Inr st'"
    by blast
  from Cons.prems(2) have "l \<notin> set (filled_cells [e])" "l \<notin> set (filled_cells es)"
    using filled_cells_Cons [of e es] by auto
  then show ?case
    using process_entry_other [OF 1] Cons.IH [OF 2] by simp
qed

lemma process_entries_langs:
  "process_entries k st es = Inr st' \<Longrightarrow>
   set (languages st') = set (languages st) \<union> set (filled_cells es)"
proof (induction es arbitrary: st)
  case Nil
  then show ?case by (simp add: filled_cells_def)
next
  case (Cons e es)
  from process_entries_Cons [OF Cons.prems(1)] obtain st1 where
    1: "process_entry k st e = Inr st1" and 2: "process_entries k st1 es = Inr st'"
    by blast
  show ?case
    using process_entry_langs [OF 1] Cons.IH [OF 2] filled_cells_Cons [of e es] by auto
qed

lemma process_entries_keys:
  "process_entries k st es = Inr st' \<Longrightarrow> proto_free st \<Longrightarrow>
   set (map fst (translations_tab st')) =
     set (map fst (translations_tab st)) \<union> (set (filled_cells es) - set object_prototype_names)
   \<and> proto_free st'"
proof (induction es arbitrary: st)
  case Nil
  then show ?case by (simp add: filled_cells_def)
next
  case (Cons e es)
  from process_entries_Cons [OF Cons.prems(1)] obtain st1 where
    1: "process_entry k st e = Inr st1" and 2: "process_entries k st1 es = Inr st'"
    by blast
  note a = process_entry_keys [OF 1 Cons.prems(2)]
  show ?case
    using a(1) Cons.IH [OF 2 a(2)] filled_cells_Cons [of e es] by auto
qed

lemma process_entries_ordered:
  "process_entries k st es = Inr st' \<Longrightarrow> ordered_names (map fst (translations_tab st)) \<Longrightarrow>
   ordered_names (map fst (translations_tab st'))"
  by (induction es arbitrary: st) (auto split: sum.splits dest: process_entry_ordered)






lemma process_row_blank: "blank_key r \<Longrightarrow> process_row st r = Inr st"
  by (auto simp: blank_key_def process_row_def trim_empty_iff split: option.splits jsval.splits)

lemma process_row_kept:
  "process_row st r = Inr st' \<Longrightarrow> \<not> blank_key r \<Longrightarrow>
   \<exists>s. map_of r ''key'' = Some (JStr s) \<and> trim s \<noteq> [] \<and> entries_intact st
     \<and> process_entries (trim s) (st\<lparr>keyMap := obj_assign (trim s) (trim s) (keyMap st)\<rparr>) r = Inr st'"
  by (auto simp: blank_key_def process_row_def trim_empty_iff Let_def
      split: option.splits jsval.splits if_splits)


lemma process_row_key_Inr:
  "map_of r ''key'' = Some (JStr s) \<Longrightarrow> trim s \<noteq> [] \<Longrightarrow> process_row st r = Inr st' \<Longrightarrow>
   process_entries (trim s) (st\<lparr>keyMap := obj_assign (trim s) (trim s) (keyMap st)\<rparr>) r = Inr st'"
  by (simp add: process_row_def Let_def split: if_splits)



lemma filled_languages_single:
  "filled_languages [r] = (if blank_key r then [] else filled_cells r)"
  by (simp add: filled_languages_def)

lemma process_row_langs:
  assumes "process_row st r = Inr st'"
  shows "set (languages st') = set (languages st) \<union> set (filled_languages [r])"
proof (cases "blank_key r")
  case True
  then show ?thesis
    using assms process_row_blank [of r st] by (simp add: filled_languages_single)
next
  case False
  from process_row_kept [OF assms False] obtain s where
    "process_entries (trim s) (st\<lparr>keyMap := obj_assign (trim s) (trim s) (keyMap st)\<rparr>) r = Inr st'"
    by blast
  from process_entries_langs [OF this] show ?thesis
    using False by (simp add: filled_languages_single)
qed

lemma process_row_keys:
  assumes "process_row st r = Inr st'" and "proto_free st"
  shows "set (map fst (translations_tab st')) =
           set (map fst (translations_tab st))
           \<union> (set (filled_languages [r]) - set object_prototype_names)
         \<and> proto_free st'"
proof (cases "blank_key r")
  case True
  then show ?thesis
    using assms process_row_blank [of r st] by (simp add: filled_languages_single)
next
  case False
  from process_row_kept [OF assms(1) False] obtain s where
    s: "process_entries (trim s) (st\<lparr>keyMap := obj_assign (trim s) (trim s) (keyMap st)\<rparr>) r = Inr st'"
    by blast
  have "proto_free (st\<lparr>keyMap := obj_assign (trim s) (trim s) (keyMap st)\<rparr>)"
    using assms(2) by (simp add: proto_free_def)
  from process_entries_keys [OF s this] show ?thesis
    using False by (simp add: filled_languages_single)
qed

lemma process_row_ordered:
  assumes "process_row st r = Inr st'" "ordered_names (map fst (translations_tab st))"
  shows "ordered_names (map fst (translations_tab st'))"
proof (cases "blank_key r")
  case True
  then show ?thesis
    using assms process_row_blank [of r st] by simp
next
  case False
  from process_row_kept [OF assms(1) False] obtain s where
    "process_entries (trim s) (st\<lparr>keyMap := obj_assign (trim s) (trim s) (keyMap st)\<rparr>) r = Inr st'"
    by blast
  from process_entries_ordered [OF this] show ?thesis
    using assms(2) by simp
qed

lemma filled_languages_Cons:
  "set (filled_languages (r # rs)) = set (filled_languages [r]) \<union> set (filled_languages rs)"
  by (simp add: filled_languages_def)

lemma process_rows_Cons:
  "process_rows st (r # rs) = Inr st' \<Longrightarrow>
   \<exists>st1. process_row st r = Inr st1 \<and> process_rows st1 rs = Inr st'"
  by (auto split: sum.splits)

lemma process_rows_langs:
  "process_rows st rows = Inr st' \<Longrightarrow>
   set (languages st') = set (languages st) \<union> set (filled_languages rows)"
proof (induction rows arbitrary: st)
  case Nil
  then show ?case by (simp add: filled_languages_def)
next
  case (Cons r rs)
  from process_rows_Cons [OF Cons.prems] obtain st1 where
    1: "process_row st r = Inr st1" and 2: "process_rows st1 rs = Inr st'"
    by blast
  show ?case
    using process_row_langs [OF 1] Cons.IH [OF 2] filled_languages_Cons [of r rs] by auto
qed

lemma process_rows_keys:
  "process_rows st rows = Inr st' \<Longrightarrow> proto_free st \<Longrightarrow>
   set (map fst (translations_tab st')) =
     set (map fst (translations_tab st))
     \<union> (set (filled_languages rows) - set object_prototype_names)
   \<and> proto_free st'"
proof (induction rows arbitrary: st)
  case Nil
  then show ?case by (simp add: filled_languages_def)
next
  case (Cons r rs)
  from process_rows_Cons [OF Cons.prems(1)] obtain st1 where
    1: "process_row st r = Inr st1" and 2: "process_rows st1 rs = Inr st'"
    by blast
  note a = process_row_keys [OF 1 Cons.prems(2)]
  show ?case
    using a Cons.IH [OF 2] filled_languages_Cons [of r rs] by auto
qed

lemma process_rows_ordered:
  "process_rows st rows = Inr st' \<Longrightarrow> ordered_names (map fst (translations_tab st)) \<Longrightarrow>
   ordered_names (map fst (translations_tab st'))"
  by (induction rows arbitrary: st) (auto split: sum.splits dest: process_row_ordered)


lemma process_rows_append:
  "process_rows st (xs @ ys) =
     (case process_rows st xs of Inl err \<Rightarrow> Inl err | Inr st' \<Rightarrow> process_rows st' ys)"
  by (induction xs arbitrary: st) (auto split: sum.splits)

lemma process_rows_drop_blank:
  "blank_key r \<Longrightarrow> process_rows st (xs @ r # ys) = process_rows st (xs @ ys)"
  by (simp add: process_rows_append process_row_blank split: sum.splits)

section \<open>Blank keys and empty cells\<close>

lemma distinct_cell:
  "distinct (map fst r) \<Longrightarrow> (c, v) \<in> set r \<Longrightarrow> (c, w) \<in> set r \<Longrightarrow> v = w"
  by (rule eq_key_imp_eq_value)

lemma empty_cell_not_filled:
  "distinct (map fst r) \<Longrightarrow> (lang, JStr []) \<in> set r \<Longrightarrow> lang \<notin> set (filled_cells r)"
proof
  assume d: "distinct (map fst r)" and m: "(lang, JStr []) \<in> set r"
    and "lang \<in> set (filled_cells r)"
  then obtain v where "(lang, v) \<in> set r" "truthy v"
    by (auto simp: filled_cells_def)
  with distinct_cell [OF d m, of v] show False by auto
qed

text \<open>
  C5. A record whose \<^verbatim>\<open>key\<close> cell is absent, empty or only white space leaves the
  three containers as they were, and taking it out of the input changes neither the
  result of the loop nor what the script writes.
\<close>

theorem blank_key_contributes_nothing:
  assumes "blank_key r"
  shows "process_row st r = Inr st
     \<and> process_rows st (xs @ r # ys) = process_rows st (xs @ ys)
     \<and> transform (xs @ r # ys) = transform (xs @ ys)
     \<and> generateTranslations (xs @ r # ys) = generateTranslations (xs @ ys)"
  using assms
  by (simp add: process_row_blank process_rows_drop_blank transform_def generateTranslations_def)

theorem blank_key_contributes_nothing_witness:
  "blank_key [(''key'', JStr ''  ''), (''en'', JStr ''Hi'')]
   \<and> blank_key [(''en'', JStr ''Hi'')]
   \<and> process_row init [(''key'', JStr ''  ''), (''en'', JStr ''Hi'')] = Inr init
   \<and> process_row init [(''en'', JStr ''Hi'')] = Inr init
   \<and> transform [[(''key'', JStr ''  ''), (''en'', JStr ''Hi'')]] = Inr init"
proof -
  have h1: "blank_key [(''key'', JStr ''  ''), (''en'', JStr ''Hi'')]" by code_simp
  have h2: "blank_key [(''en'', JStr ''Hi'')]" by code_simp
  have t: "transform [] = Inr init" by (simp add: transform_def)
  show ?thesis
    using h1 h2 t
      blank_key_contributes_nothing [OF h1, of init "[]" "[]"]
      blank_key_contributes_nothing [OF h2, of init "[]" "[]"]
    by simp
qed

text \<open>
  C6. An entry with an empty cell passes through the loop body without effect. On a
  record with a non-empty key whose cell for \<open>lang\<close> is empty, the map of that language
  is after the record what it was before (so the key is absent from it if it was absent,
  and no empty string is stored), and the language is in the Language Set after the
  record only if it was before.
\<close>

theorem empty_cell_creates_nothing:
  assumes "map_of r ''key'' = Some (JStr s)" and "trim s \<noteq> []"
    and "distinct (map fst r)" and "(lang, JStr []) \<in> set r"
    and "process_row st r = Inr st'"
  shows "process_entry (trim s) st0 (lang, JStr []) = Inr st0
     \<and> map_of (translations_tab st') lang = map_of (translations_tab st) lang
     \<and> tr_lookup st' lang (trim s) = tr_lookup st lang (trim s)
     \<and> (lang \<in> set (languages st') \<longleftrightarrow> lang \<in> set (languages st))"
proof -
  let ?st = "st\<lparr>keyMap := obj_assign (trim s) (trim s) (keyMap st)\<rparr>"
  have "process_entries (trim s) ?st r = Inr st'"
    using process_row_key_Inr [OF assms(1,2,5)] .
  from process_entries_other [OF this empty_cell_not_filled [OF assms(3,4)]]
  have "map_of (translations_tab st') lang = map_of (translations_tab st) lang"
    and "lang \<in> set (languages st') \<longleftrightarrow> lang \<in> set (languages st)"
    by simp_all
  then show ?thesis
    by (simp add: process_entry_skip tr_lookup_def)
qed

theorem empty_cell_creates_nothing_witness:
  "process_row init [(''key'', JStr ''bye''), (''en'', JStr ''Bye''), (''fr'', JStr [])] =
     Inr \<lparr>translations_tab = [(''en'', [(''bye'', ''Bye'')])], keyMap = [(''bye'', ''bye'')],
          languages = [''en''], entries_intact = True\<rparr>
   \<and> tr_lookup \<lparr>translations_tab = [(''en'', [(''bye'', ''Bye'')])], keyMap = [(''bye'', ''bye'')],
          languages = [''en''], entries_intact = True\<rparr> ''fr'' ''bye'' = None
   \<and> ''fr'' \<notin> set [''en'']"
proof -
  let ?r = "[(''key'', JStr ''bye''), (''en'', JStr ''Bye''), (''fr'', JStr [])]"
  let ?st' = "\<lparr>translations_tab = [(''en'', [(''bye'', ''Bye'')])], keyMap = [(''bye'', ''bye'')],
          languages = [''en''], entries_intact = True\<rparr>"
  have h1: "map_of ?r ''key'' = Some (JStr ''bye'')" by simp
  have h2: "trim ''bye'' \<noteq> []" by code_simp
  have h3: "distinct (map fst ?r)" by simp
  have h4: "(''fr'', JStr []) \<in> set ?r" by simp
  have h5: "process_row init ?r = Inr ?st'" by code_simp
  have "tr_lookup init ''fr'' (trim ''bye'') = None" by code_simp
  moreover have t: "trim ''bye'' = ''bye''" by code_simp
  ultimately show ?thesis
    using empty_cell_creates_nothing [OF h1 h2 h3 h4 h5, of init] h5
    by (simp only: t) simp
qed

section \<open>Stored values\<close>












section \<open>The files written\<close>

lemma init_ordered: "ordered_names (map fst (translations_tab init))"
  by (simp add: init_def)

lemma init_proto_free: "proto_free init"
  by (simp add: init_def proto_free_def)

lemma transform_keys:
  assumes "transform rows = Inr st"
  shows "set (map fst (translations_tab st)) =
           set (filled_languages rows) - set object_prototype_names"
    and "set (languages st) = set (filled_languages rows)"
    and "distinct (map fst (translations_tab st))"
    and "proto_free st"
proof -
  have p: "process_rows init rows = Inr st"
    using assms by (simp add: transform_def)
  from process_rows_keys [OF p init_proto_free]
  show "set (map fst (translations_tab st)) =
           set (filled_languages rows) - set object_prototype_names"
    and "proto_free st"
    by (simp_all add: init_def)
  from process_rows_langs [OF p]
  show "set (languages st) = set (filled_languages rows)"
    by (simp add: init_def)
  from process_rows_ordered [OF p init_ordered]
  show "distinct (map fst (translations_tab st))"
    by (rule ordered_names_distinct)
qed


lemma write_all_Nil: "write_all [] fs = fs"
  by (simp add: write_all_def)

lemma write_all_Cons: "write_all ((p, body) # ws) fs = write_all ws (fs(p \<mapsto> body))"
  by (auto simp: write_all_def map_add_def fun_eq_iff split: option.splits)


text \<open>The writes are made up to the first one that is refused.\<close>

lemma apply_writes_accepted:
  "apply_writes ev ws fs =
     ((if list_all (\<lambda>w. write_ok ev (fst w)) ws then None else Some FsError),
      write_all (accepted ev ws) fs)"
proof (induction ws arbitrary: fs)
  case Nil
  then show ?case by (simp add: accepted_def write_all_Nil)
next
  case (Cons w ws)
  obtain p body where w: "w = (p, body)" by (cases w)
  show ?case
  proof (cases "write_ok ev p")
    case True
    have "accepted ev (w # ws) = (p, body) # accepted ev ws"
      using True w by (simp add: accepted_def)
    then show ?thesis
      by (simp add: True w Cons.IH write_all_Cons fun_upd_def)
  next
    case False
    then show ?thesis using w by (simp add: accepted_def write_all_Nil)
  qed
qed

lemma run_writes:
  assumes "transform rows = Inr st" and "entries_intact st" and "mkdir_ok ev"
  shows "run ev rows fs =
     ((if list_all (\<lambda>w. write_ok ev (fst w)) (write_files st) then None else Some FsError),
      write_all (accepted ev (write_files st)) fs)"
  using assms by (simp add: run_def apply_writes_accepted)

lemma accepted_all: "list_all (\<lambda>w. write_ok ev (fst w)) ws \<Longrightarrow> accepted ev ws = ws"
  by (simp add: accepted_def list_all_iff)




section \<open>The files after a run\<close>


lemma run_complete_iff:
  "fst (run ev rows fs) = None \<longleftrightarrow>
   (\<exists>st. transform rows = Inr st \<and> entries_intact st \<and> mkdir_ok ev
      \<and> list_all (\<lambda>w. write_ok ev (fst w)) (write_files st))"
  by (auto simp: run_def apply_writes_accepted split: sum.splits)

lemma run_complete_files:
  assumes "fst (run ev rows fs) = None" and "transform rows = Inr st"
  shows "snd (run ev rows fs) = write_all (write_files st) fs"
proof -
  from assms have "entries_intact st" "mkdir_ok ev"
    "list_all (\<lambda>w. write_ok ev (fst w)) (write_files st)"
    using run_complete_iff [of ev rows fs] by auto
  then show ?thesis
    using assms(2) by (simp add: run_writes accepted_all)
qed






section \<open>The order of keys and languages\<close>

lemma set_add_Cons: "x \<noteq> y \<Longrightarrow> set_add x (y # ys) = y # set_add x ys"
  by (simp add: set_add_def)

lemma set_add_member: "x \<in> set xs \<Longrightarrow> set_add x xs = xs"
  by (simp add: set_add_def)

lemma name_keys_simps:
  "name_keys [] = []"
  "name_keys (k # ks) = (if array_index k = None then k # name_keys ks else name_keys ks)"
  "name_keys (xs @ ys) = name_keys xs @ name_keys ys"
  by (simp_all add: name_keys_def)

lemma index_keys_simps:
  "index_keys [] = []"
  "index_keys (k # ks) = (if array_index k = None then index_keys ks else k # index_keys ks)"
  by (simp_all add: index_keys_def)

lemma set_name_keys: "set (name_keys ks) = {k \<in> set ks. array_index k = None}"
  by (simp add: name_keys_def)

text \<open>A new name goes behind the other names unless it is an array index.\<close>

lemma name_keys_obj_put:
  "name_keys (map fst (obj_put k v ob)) =
     (if array_index k = None then set_add k (name_keys (map fst ob))
      else name_keys (map fst ob))"
proof (induction ob)
  case Nil
  then show ?case by (simp add: name_keys_simps set_add_def)
next
  case (Cons a ob)
  obtain k' v' where a: "a = (k', v')" by (cases a)
  show ?case
  proof (cases "k = k'")
    case True
    then show ?thesis
      using a by (simp add: name_keys_simps set_add_def)
  next
    case neq: False
    show ?thesis
    proof (cases "comes_before k k'")
      case True
      then obtain i where "array_index k = Some i"
        by (auto simp: comes_before_def split: option.splits)
      then show ?thesis
        using a neq True by (simp add: name_keys_simps)
    next
      case False
      then show ?thesis
        using a neq Cons.IH by (simp add: name_keys_simps set_add_Cons)
    qed
  qed
qed

text \<open>The shape of an enumeration: indices first and ascending, then the other names.\<close>

lemma ordered_names_shape:
  "ordered_names ks \<Longrightarrow>
   ks = index_keys ks @ name_keys ks \<and> sorted (map index_of (index_keys ks))"
proof (induction ks)
  case Nil
  then show ?case by (simp add: name_keys_simps index_keys_simps)
next
  case (Cons k ks)
  then have IH: "ks = index_keys ks @ name_keys ks" "sorted (map index_of (index_keys ks))"
    and later: "\<forall>k'\<in>set ks. \<not> comes_before k' k"
    by (simp_all add: list_all_iff)
  show ?case
  proof (cases "array_index k")
    case None
    have "\<forall>k'\<in>set ks. array_index k' = None"
      using later None by (auto simp: comes_before_def split: option.splits)
    then have "index_keys ks = []"
      by (simp add: index_keys_def)
    then show ?thesis
      using None IH(1) by (simp add: name_keys_simps index_keys_simps)
  next
    case (Some i)
    have "\<forall>k'\<in>set (index_keys ks). i \<le> index_of k'"
    proof
      fix k'
      assume "k' \<in> set (index_keys ks)"
      then have m: "k' \<in> set ks" and "array_index k' \<noteq> None"
        by (simp_all add: index_keys_def)
      then obtain j where j: "array_index k' = Some j" by auto
      have "\<not> comes_before k' k" using later m by simp
      then have "\<not> j < i" using j Some by (simp add: comes_before_def)
      then show "i \<le> index_of k'" using j by (simp add: index_of_def)
    qed
    then have "sorted (map index_of (k # index_keys ks))"
      using IH(2) Some by (simp add: index_of_def)
    then show ?thesis
      using Some IH(1) by (simp add: name_keys_simps index_keys_simps)
  qed
qed

lemma first_seen_snoc: "first_seen (xs @ [x]) = set_add x (first_seen xs)"
  by (simp add: first_seen_def)

lemma first_seen_append: "first_seen (xs @ ys) = fold set_add ys (first_seen xs)"
  by (simp add: first_seen_def)

lemma tracks_Nil: "tracks [] []"
  by (simp add: tracks_def name_keys_simps first_seen_def)

lemma tracks_put:
  assumes "tracks (map fst ob) src"
  shows "tracks (map fst (obj_put k v ob)) (src @ [k])"
proof -
  have "ordered_names (map fst (obj_put k v ob))"
    using assms by (simp add: tracks_def ordered_names_obj_put)
  moreover have "set (map fst (obj_put k v ob)) = set (src @ [k])"
    using assms keys_obj_put [of k v ob] by (auto simp: tracks_def)
  moreover have "name_keys (map fst (obj_put k v ob)) = first_seen (name_keys (src @ [k]))"
    using assms
    by (simp add: tracks_def name_keys_obj_put name_keys_simps first_seen_snoc)
  ultimately show ?thesis by (simp add: tracks_def)
qed

lemma tracks_assign:
  assumes "tracks (map fst ob) src"
  shows "tracks (map fst (obj_assign k v ob)) (src @ filter (\<lambda>k. k \<noteq> ''__proto__'') [k])"
  using assms tracks_put [OF assms, of k v] by (simp add: obj_assign_def)

lemma tracks_enumerates: "tracks ks src \<Longrightarrow> enumerates ks src"
  using ordered_names_shape [of ks] ordered_names_distinct [of ks]
  by (simp add: tracks_def enumerates_def)

text \<open>The Language Set, in the order of insertion.\<close>

lemma process_entry_languages:
  "process_entry k st e = Inr st' \<Longrightarrow>
   languages st' = fold set_add (filled_cells [e]) (languages st)"
  using process_entry_Inr [of k st "fst e" "snd e" st']
  by (cases e) (auto simp: store_def builtin_store_simps filled_cells_def)

lemma filled_cells_Cons_list: "filled_cells (e # es) = filled_cells [e] @ filled_cells es"
  by (simp add: filled_cells_def)

lemma process_entries_languages:
  "process_entries k st es = Inr st' \<Longrightarrow>
   languages st' = fold set_add (filled_cells es) (languages st)"
proof (induction es arbitrary: st)
  case Nil
  then show ?case by (simp add: filled_cells_def)
next
  case (Cons e es)
  from process_entries_Cons [OF Cons.prems] obtain st1 where
    1: "process_entry k st e = Inr st1" and 2: "process_entries k st1 es = Inr st'"
    by blast
  show ?case
    using process_entry_languages [OF 1] Cons.IH [OF 2]
    by (simp add: filled_cells_Cons_list [of e es])
qed

lemma process_row_languages:
  assumes "process_row st r = Inr st'"
  shows "languages st' = fold set_add (filled_languages [r]) (languages st)"
proof (cases "blank_key r")
  case True
  then show ?thesis
    using assms process_row_blank [of r st] by (simp add: filled_languages_single)
next
  case False
  from process_row_kept [OF assms False] obtain s where
    "process_entries (trim s) (st\<lparr>keyMap := obj_assign (trim s) (trim s) (keyMap st)\<rparr>) r = Inr st'"
    by blast
  from process_entries_languages [OF this] show ?thesis
    using False by (simp add: filled_languages_single)
qed

lemma filled_languages_Cons_list:
  "filled_languages (r # rs) = filled_languages [r] @ filled_languages rs"
  by (simp add: filled_languages_def)

lemma process_rows_languages:
  "process_rows st rows = Inr st' \<Longrightarrow>
   languages st' = fold set_add (filled_languages rows) (languages st)"
proof (induction rows arbitrary: st)
  case Nil
  then show ?case by (simp add: filled_languages_def)
next
  case (Cons r rs)
  from process_rows_Cons [OF Cons.prems] obtain st1 where
    1: "process_row st r = Inr st1" and 2: "process_rows st1 rs = Inr st'"
    by blast
  show ?case
    using process_row_languages [OF 1] Cons.IH [OF 2]
    by (simp add: filled_languages_Cons_list [of r rs])
qed

text \<open>The names of \<^verbatim>\<open>keyMap\<close>, and its values.\<close>

lemma kept_keys_single:
  "kept_keys [r] =
     (case map_of r ''key'' of
        Some (JStr s) \<Rightarrow> if trim s = [] then [] else [trim s]
      | _ \<Rightarrow> [])"
  by (simp add: kept_keys_def split: option.splits jsval.splits)

lemma kept_keys_blank: "blank_key r \<Longrightarrow> kept_keys [r] = []"
  by (auto simp: kept_keys_single blank_key_def trim_empty_iff split: option.splits jsval.splits)

lemma kept_keys_Cons: "kept_keys (r # rs) = kept_keys [r] @ kept_keys rs"
  by (simp add: kept_keys_def)

lemma stored_keys_Cons: "stored_keys (r # rs) = stored_keys [r] @ stored_keys rs"
  by (simp add: stored_keys_def kept_keys_Cons [of r rs])

lemma process_row_keyMap:
  assumes "process_row st r = Inr st'"
  shows "keyMap st' = (if blank_key r then keyMap st
                       else fold (\<lambda>k. obj_assign k k) (kept_keys [r]) (keyMap st))"
proof (cases "blank_key r")
  case True
  then show ?thesis
    using assms process_row_blank [of r st] by simp
next
  case False
  from process_row_kept [OF assms False] obtain s where
    s: "map_of r ''key'' = Some (JStr s)" "trim s \<noteq> []"
    "process_entries (trim s) (st\<lparr>keyMap := obj_assign (trim s) (trim s) (keyMap st)\<rparr>) r = Inr st'"
    by blast
  then have "kept_keys [r] = [trim s]"
    by (simp add: kept_keys_single)
  then show ?thesis
    using process_entries_keyMap [OF s(3)] False by simp
qed

lemma process_row_keyMap_tracks:
  assumes "process_row st r = Inr st'" and "tracks (map fst (keyMap st)) src"
  shows "tracks (map fst (keyMap st')) (src @ stored_keys [r])"
proof (cases "blank_key r")
  case True
  then show ?thesis
    using assms process_row_keyMap [OF assms(1)] by (simp add: stored_keys_def kept_keys_blank)
next
  case False
  from process_row_kept [OF assms(1) False] obtain s where
    s: "map_of r ''key'' = Some (JStr s)" "trim s \<noteq> []"
    by blast
  then have k: "kept_keys [r] = [trim s]"
    by (simp add: kept_keys_single)
  then have "keyMap st' = obj_assign (trim s) (trim s) (keyMap st)"
    using process_row_keyMap [OF assms(1)] False by simp
  then show ?thesis
    using tracks_assign [OF assms(2), of "trim s" "trim s"] k by (simp add: stored_keys_def)
qed

lemma process_rows_keyMap_tracks:
  "process_rows st rows = Inr st' \<Longrightarrow> tracks (map fst (keyMap st)) src \<Longrightarrow>
   tracks (map fst (keyMap st')) (src @ stored_keys rows)"
proof (induction rows arbitrary: st src)
  case Nil
  then show ?case by (simp add: stored_keys_def kept_keys_def)
next
  case (Cons r rs)
  from process_rows_Cons [OF Cons.prems(1)] obtain st1 where
    1: "process_row st r = Inr st1" and 2: "process_rows st1 rs = Inr st'"
    by blast
  show ?case
    using Cons.IH [OF 2 process_row_keyMap_tracks [OF 1 Cons.prems(2)]]
    by (simp add: stored_keys_Cons [of r rs])
qed

lemma set_obj_put: "set (obj_put k v ob) \<subseteq> insert (k, v) (set ob)"
  by (induction ob) (auto split: if_splits)

lemma obj_assign_diagonal:
  "list_all (\<lambda>(a, b). a = b) ob \<Longrightarrow> list_all (\<lambda>(a, b). a = b) (obj_assign k k ob)"
  using set_obj_put [of k k ob] by (auto simp: obj_assign_def list_all_iff)

lemma process_row_diagonal:
  assumes "process_row st r = Inr st'" and "list_all (\<lambda>(a, b). a = b) (keyMap st)"
  shows "list_all (\<lambda>(a, b). a = b) (keyMap st')"
proof (cases "blank_key r")
  case True
  then show ?thesis using assms process_row_blank [of r st] by simp
next
  case False
  from process_row_kept [OF assms(1) False] obtain s where
    s: "process_entries (trim s) (st\<lparr>keyMap := obj_assign (trim s) (trim s) (keyMap st)\<rparr>) r = Inr st'"
    by blast
  show ?thesis
    using process_entries_keyMap [OF s] obj_assign_diagonal [OF assms(2), of "trim s"] by simp
qed

lemma process_rows_diagonal:
  "process_rows st rows = Inr st' \<Longrightarrow> list_all (\<lambda>(a, b). a = b) (keyMap st) \<Longrightarrow>
   list_all (\<lambda>(a, b). a = b) (keyMap st')"
  by (induction rows arbitrary: st) (auto split: sum.splits dest: process_row_diagonal)

lemma diagonal_map: "list_all (\<lambda>(a, b). a = b) ob \<Longrightarrow> ob = map (\<lambda>k. (k, k)) (map fst ob)"
  by (induction ob) auto

text \<open>The names of \<^verbatim>\<open>translations\<close>.\<close>

lemma process_entry_tr_tracks:
  assumes "process_entry k st e = Inr st'" and "proto_free st"
    and "tracks (map fst (translations_tab st)) src"
  shows "tracks (map fst (translations_tab st'))
           (src @ filter (\<lambda>l. l \<notin> set object_prototype_names) (filled_cells [e]))"
proof -
  obtain lang val where e: "e = (lang, val)" by (cases e)
  have none: "lang \<in> set object_prototype_names \<Longrightarrow> map_of (translations_tab st) lang = None"
    using assms(2) by (auto simp: proto_free_def map_of_eq_None_iff)
  from process_entry_Inr [of k st lang val st'] assms(1) e
  consider (skip) "lang = ''key'' \<or> \<not> truthy val" "st' = st"
    | (own) s where "val = JStr s" "s \<noteq> []" "lang \<noteq> ''key''"
        "lang \<notin> set object_prototype_names" "st' = store k st lang s"
    | (builtin) s where "val = JStr s" "s \<noteq> []" "lang \<noteq> ''key''"
        "lang \<in> set object_prototype_names" "st' = builtin_store k st lang"
    using none by auto
  then show ?thesis
  proof cases
    case skip
    then show ?thesis using e assms(3) by (auto simp: filled_cells_def)
  next
    case own
    then have "filled_cells [e] = [lang]"
      using e by (simp add: filled_cells_def)
    moreover have "map fst (translations_tab st') =
        map fst (obj_put lang
          (obj_assign k (safeValue s)
            (case map_of (translations_tab st) lang of None \<Rightarrow> [] | Some d \<Rightarrow> d))
          (translations_tab st))"
      using own by (simp add: store_def)
    ultimately show ?thesis
      using own(4) tracks_put [OF assms(3), of lang] by simp
  next
    case builtin
    then have "filled_cells [e] = [lang]"
      using e by (simp add: filled_cells_def)
    then show ?thesis
      using builtin assms(3) by (simp add: builtin_store_simps)
  qed
qed

lemma process_entries_tr_tracks:
  "process_entries k st es = Inr st' \<Longrightarrow> proto_free st \<Longrightarrow>
   tracks (map fst (translations_tab st)) src \<Longrightarrow>
   tracks (map fst (translations_tab st'))
     (src @ filter (\<lambda>l. l \<notin> set object_prototype_names) (filled_cells es))"
proof (induction es arbitrary: st src)
  case Nil
  then show ?case by (simp add: filled_cells_def)
next
  case (Cons e es)
  from process_entries_Cons [OF Cons.prems(1)] obtain st1 where
    1: "process_entry k st e = Inr st1" and 2: "process_entries k st1 es = Inr st'"
    by blast
  note pf = process_entry_keys(2) [OF 1 Cons.prems(2)]
  show ?case
    using Cons.IH [OF 2 pf process_entry_tr_tracks [OF 1 Cons.prems(2,3)]]
    by (simp add: filled_cells_Cons_list [of e es])
qed

lemma stored_languages_single:
  "stored_languages [r] =
     (if blank_key r then []
      else filter (\<lambda>l. l \<notin> set object_prototype_names) (filled_cells r))"
  by (simp add: stored_languages_def filled_languages_single)

lemma stored_languages_Cons:
  "stored_languages (r # rs) = stored_languages [r] @ stored_languages rs"
  by (simp add: stored_languages_def filled_languages_Cons_list [of r rs])

lemma process_row_tr_tracks:
  assumes "process_row st r = Inr st'" and "proto_free st"
    and "tracks (map fst (translations_tab st)) src"
  shows "tracks (map fst (translations_tab st')) (src @ stored_languages [r])"
proof (cases "blank_key r")
  case True
  then show ?thesis
    using assms process_row_blank [of r st] by (simp add: stored_languages_single)
next
  case False
  from process_row_kept [OF assms(1) False] obtain s where
    s: "process_entries (trim s) (st\<lparr>keyMap := obj_assign (trim s) (trim s) (keyMap st)\<rparr>) r = Inr st'"
    by blast
  have "proto_free (st\<lparr>keyMap := obj_assign (trim s) (trim s) (keyMap st)\<rparr>)"
    using assms(2) by (simp add: proto_free_def)
  from process_entries_tr_tracks [OF s this, of src] show ?thesis
    using assms(3) False by (simp add: stored_languages_single)
qed

lemma process_rows_tr_tracks:
  "process_rows st rows = Inr st' \<Longrightarrow> proto_free st \<Longrightarrow>
   tracks (map fst (translations_tab st)) src \<Longrightarrow>
   tracks (map fst (translations_tab st')) (src @ stored_languages rows)"
proof (induction rows arbitrary: st src)
  case Nil
  then show ?case by (simp add: stored_languages_def filled_languages_def)
next
  case (Cons r rs)
  from process_rows_Cons [OF Cons.prems(1)] obtain st1 where
    1: "process_row st r = Inr st1" and 2: "process_rows st1 rs = Inr st'"
    by blast
  have pf: "proto_free st1"
    using process_row_keys [OF 1 Cons.prems(2)] by simp
  show ?case
    using Cons.IH [OF 2 pf process_row_tr_tracks [OF 1 Cons.prems(2,3)]]
    by (simp add: stored_languages_Cons [of r rs])
qed

text \<open>The names of the map of one language.\<close>

lemma fold_set_add_set: "set (fold set_add ys zs) = set zs \<union> set ys"
  by (induction ys arbitrary: zs) (auto simp: set_add_def)

lemma fold_set_add_absorb: "set ys \<subseteq> set zs \<Longrightarrow> fold set_add ys zs = zs"
  by (induction ys arbitrary: zs) (auto simp: set_add_def)

lemma tracks_twice:
  assumes "tracks ks ((src @ xs) @ xs)"
  shows "tracks ks (src @ xs)"
proof -
  have "set (name_keys xs) \<subseteq> set (fold set_add (name_keys xs) (first_seen (name_keys src)))"
    by (simp add: fold_set_add_set)
  then have "first_seen (name_keys ((src @ xs) @ xs)) = first_seen (name_keys (src @ xs))"
    by (simp add: name_keys_simps first_seen_append fold_set_add_absorb)
  then show ?thesis
    using assms by (simp add: tracks_def)
qed

lemma process_entry_lang_tracks:
  assumes "process_entry k st e = Inr st'" and "l \<notin> set object_prototype_names"
    and "tracks (language_keys st l) src"
  shows "tracks (language_keys st' l)
           (src @ (if l \<in> set (filled_cells [e])
                   then filter (\<lambda>k. k \<noteq> ''__proto__'') [k] else []))"
proof (cases "l \<in> set (filled_cells [e])")
  case False
  then have "language_keys st' l = language_keys st l"
    using process_entry_other [OF assms(1) False] by (simp add: language_keys_def)
  then show ?thesis
    using assms(3) False by simp
next
  case True
  obtain lang val where e: "e = (lang, val)" by (cases e)
  from True e have l: "lang = l" "l \<noteq> ''key''" "truthy val"
    by (auto simp: filled_cells_def split: if_splits)
  from process_entry_Inr [of k st lang val st'] assms(1,2) e l
  obtain s where s: "st' = store k st l s"
    by auto
  define d where "d = (case map_of (translations_tab st) l of None \<Rightarrow> [] | Some d \<Rightarrow> d)"
  have "map_of (translations_tab st') l = Some (obj_assign k (safeValue s) d)"
    using s by (simp add: store_def map_of_obj_put d_def)
  then have 1: "language_keys st' l = map fst (obj_assign k (safeValue s) d)"
    by (simp add: language_keys_def)
  have 2: "language_keys st l = map fst d"
    by (simp add: language_keys_def d_def)
  show ?thesis
    using tracks_assign [of d src k "safeValue s"] assms(3) True 1 2 by simp
qed

lemma process_entries_lang_tracks:
  "process_entries k st es = Inr st' \<Longrightarrow> l \<notin> set object_prototype_names \<Longrightarrow>
   tracks (language_keys st l) src \<Longrightarrow>
   tracks (language_keys st' l)
     (src @ (if l \<in> set (filled_cells es)
             then filter (\<lambda>k. k \<noteq> ''__proto__'') [k] else []))"
proof (induction es arbitrary: st src)
  case Nil
  then show ?case by (simp add: filled_cells_def)
next
  case (Cons e es)
  from process_entries_Cons [OF Cons.prems(1)] obtain st1 where
    1: "process_entry k st e = Inr st1" and 2: "process_entries k st1 es = Inr st'"
    by blast
  let ?F = "filter (\<lambda>k. k \<noteq> ''__proto__'') [k]"
  note a = process_entry_lang_tracks [OF 1 Cons.prems(2,3)]
  note b = Cons.IH [OF 2 Cons.prems(2) a]
  have m: "l \<in> set (filled_cells (e # es)) \<longleftrightarrow>
           l \<in> set (filled_cells [e]) \<or> l \<in> set (filled_cells es)"
    by (simp add: filled_cells_Cons_list [of e es])
  show ?case
  proof (cases "l \<in> set (filled_cells [e]) \<and> l \<in> set (filled_cells es)")
    case True
    then have "tracks (language_keys st' l) ((src @ ?F) @ ?F)"
      using b by simp
    from tracks_twice [OF this] show ?thesis
      using True m by simp
  next
    case False
    then show ?thesis
      using b m by auto
  qed
qed

lemma keys_of_language_Cons:
  "keys_of_language l (r # rs) = keys_of_language l [r] @ keys_of_language l rs"
  by (simp add: keys_of_language_def)

lemma stored_keys_of_language_Cons:
  "stored_keys_of_language l (r # rs) =
     stored_keys_of_language l [r] @ stored_keys_of_language l rs"
  by (simp add: stored_keys_of_language_def keys_of_language_Cons [of l r rs])

lemma process_row_lang_tracks:
  assumes "process_row st r = Inr st'" and "l \<notin> set object_prototype_names"
    and "tracks (language_keys st l) src"
  shows "tracks (language_keys st' l) (src @ stored_keys_of_language l [r])"
proof (cases "blank_key r")
  case True
  then show ?thesis
    using assms process_row_blank [of r st]
    by (simp add: stored_keys_of_language_def keys_of_language_def kept_keys_blank)
next
  case False
  from process_row_kept [OF assms(1) False] obtain s where
    s: "map_of r ''key'' = Some (JStr s)" "trim s \<noteq> []"
    "process_entries (trim s) (st\<lparr>keyMap := obj_assign (trim s) (trim s) (keyMap st)\<rparr>) r = Inr st'"
    by blast
  then have k: "kept_keys [r] = [trim s]"
    by (simp add: kept_keys_single)
  have "tracks (language_keys (st\<lparr>keyMap := obj_assign (trim s) (trim s) (keyMap st)\<rparr>) l) src"
    using assms(3) by (simp add: language_keys_def)
  from process_entries_lang_tracks [OF s(3) assms(2) this] show ?thesis
    using k assms(2)
    by (auto simp: stored_keys_of_language_def keys_of_language_def split: if_splits)
qed

lemma process_rows_lang_tracks:
  "process_rows st rows = Inr st' \<Longrightarrow> l \<notin> set object_prototype_names \<Longrightarrow>
   tracks (language_keys st l) src \<Longrightarrow>
   tracks (language_keys st' l) (src @ stored_keys_of_language l rows)"
proof (induction rows arbitrary: st src)
  case Nil
  then show ?case by (simp add: stored_keys_of_language_def keys_of_language_def)
next
  case (Cons r rs)
  from process_rows_Cons [OF Cons.prems(1)] obtain st1 where
    1: "process_row st r = Inr st1" and 2: "process_rows st1 rs = Inr st'"
    by blast
  show ?case
    using Cons.IH [OF 2 Cons.prems(2) process_row_lang_tracks [OF 1 Cons.prems(2,3)]]
    by (simp add: stored_keys_of_language_Cons [of l r rs])
qed

text \<open>The containers at the end of the loop.\<close>

lemma transform_order:
  assumes "transform rows = Inr st"
  shows "languages st = first_seen (filled_languages rows)"
    and "enumerates (map fst (translations_tab st)) (stored_languages rows)"
    and "enumerates (map fst (keyMap st)) (stored_keys rows)"
    and "keyMap st = map (\<lambda>k. (k, k)) (map fst (keyMap st))"
    and "enumerates (language_keys st l) (stored_keys_of_language l rows)"
proof -
  have p: "process_rows init rows = Inr st"
    using assms by (simp add: transform_def)
  show "languages st = first_seen (filled_languages rows)"
    using process_rows_languages [OF p] by (simp add: init_def first_seen_def)
  have "tracks (map fst (translations_tab init)) []"
    by (simp add: init_def tracks_Nil)
  from process_rows_tr_tracks [OF p init_proto_free this]
  show "enumerates (map fst (translations_tab st)) (stored_languages rows)"
    by (simp add: tracks_enumerates)
  have "tracks (map fst (keyMap init)) []"
    by (simp add: init_def tracks_Nil)
  from process_rows_keyMap_tracks [OF p this]
  show "enumerates (map fst (keyMap st)) (stored_keys rows)"
    by (simp add: tracks_enumerates)
  have "list_all (\<lambda>(a, b). a = b) (keyMap init)"
    by (simp add: init_def)
  from diagonal_map [OF process_rows_diagonal [OF p this]]
  show "keyMap st = map (\<lambda>k. (k, k)) (map fst (keyMap st))" .
  show "enumerates (language_keys st l) (stored_keys_of_language l rows)"
  proof (cases "l \<in> set object_prototype_names")
    case True
    have "proto_free st"
      using transform_keys(4) [OF assms] .
    then have "map_of (translations_tab st) l = None"
      using True by (auto simp: proto_free_def map_of_eq_None_iff)
    then have "language_keys st l = []"
      by (simp add: language_keys_def)
    then show ?thesis
      using True tracks_enumerates [OF tracks_Nil] by (simp add: stored_keys_of_language_def)
  next
    case False
    have "tracks (language_keys init l) []"
      by (simp add: init_def language_keys_def tracks_Nil)
    from process_rows_lang_tracks [OF p False this] show ?thesis
      by (simp add: tracks_enumerates)
  qed
qed

text \<open>A second run over the files that a run left.\<close>

lemma write_all_twice: "write_all ws (write_all ws fs) = write_all ws fs"
  by (auto simp: write_all_def map_add_def fun_eq_iff split: option.splits)

lemma write_all_at:
  "write_all ws fs p = (if p \<in> fst ` set ws then map_of (rev ws) p else fs p)"
proof (cases "map_of (rev ws) p")
  case None
  then have "p \<notin> fst ` set ws"
    by (simp add: map_of_eq_None_iff)
  then show ?thesis
    using None by (simp add: write_all_def map_add_def)
next
  case (Some body)
  then have "(p, body) \<in> set ws"
    using map_of_SomeD [of "rev ws" p body] by simp
  then have "p \<in> fst ` set ws"
    by force
  then show ?thesis
    using Some by (simp add: write_all_def map_add_def)
qed

lemma run_snd:
  "snd (run ev rows fs) =
     write_all (accepted ev
       (case generateTranslations rows of
          Inr ws \<Rightarrow> if mkdir_ok ev then ws else []
        | Inl err \<Rightarrow> [])) fs"
  by (simp add: run_def generateTranslations_def apply_writes_accepted write_all_Nil accepted_def
      split: sum.splits)

lemma run_fst: "fst (run ev rows fs) = fst (run ev rows (map_of []))"
  by (simp add: run_def apply_writes_accepted split: sum.splits)

lemma run_twice: "run ev rows (snd (run ev rows fs)) = run ev rows fs"
proof (rule prod_eqI)
  show "fst (run ev rows (snd (run ev rows fs))) = fst (run ev rows fs)"
    using run_fst [of ev rows "snd (run ev rows fs)"] run_fst [of ev rows fs] by simp
  show "snd (run ev rows (snd (run ev rows fs))) = snd (run ev rows fs)"
    by (simp add: run_snd write_all_twice)
qed

lemma enumerates_names:
  assumes "enumerates ks src" and "\<forall>k\<in>set src. array_index k = None"
  shows "ks = first_seen src"
proof -
  have "set ks = set src" and ks: "ks = index_keys ks @ name_keys ks"
    and n: "name_keys ks = first_seen (name_keys src)"
    using assms(1) unfolding enumerates_def by blast+
  then have "index_keys ks = []"
    using assms(2) by (simp add: index_keys_def)
  moreover have "name_keys src = src"
    using assms(2) by (simp add: name_keys_def)
  ultimately show ?thesis
    using ks n by simp
qed

lemma transform_language_map:
  assumes "transform rows = Inr st" and "(lang, data) \<in> set (translations_tab st)"
  shows "enumerates (map fst data) (stored_keys_of_language lang rows)"
proof -
  have "map_of (translations_tab st) lang = Some data"
    using transform_keys(3) [OF assms(1)] assms(2) by simp
  then have "language_keys st lang = map fst data"
    by (simp add: language_keys_def)
  then show ?thesis
    using transform_order(5) [OF assms(1), of lang] by simp
qed

text \<open>
  C9, as the claim words it: the keys within each JSON object follow the input row
  order. The text with header \<^verbatim>\<open>key,en\<close> and the rows \<^verbatim>\<open>b,x\<close> and \<^verbatim>\<open>1,y\<close> has the
  keys b and 1 in this order, and the script writes \<^verbatim>\<open>en.json\<close> and \<^verbatim>\<open>keys.json\<close>
  with the key 1 before the key b: a key that is an array index is enumerated before the
  other keys, wherever its row stands. The last equation gives the text of \<^verbatim>\<open>keys.json\<close>.
\<close>

theorem key_order_not_row_order:
  "papa_parse (''key,en'' @ [lf] @ ''b,x'' @ [lf] @ ''1,y'') =
     Some [[(''key'', JStr ''b''), (''en'', JStr ''x'')],
           [(''key'', JStr ''1''), (''en'', JStr ''y'')]]
   \<and> kept_keys [[(''key'', JStr ''b''), (''en'', JStr ''x'')],
                [(''key'', JStr ''1''), (''en'', JStr ''y'')]] = [''b'', ''1'']
   \<and> generateTranslations [[(''key'', JStr ''b''), (''en'', JStr ''x'')],
                           [(''key'', JStr ''1''), (''en'', JStr ''y'')]] =
     Inr [(''src/i18n/locales/en.json'', stringify_obj [(''1'', ''y''), (''b'', ''x'')]),
          (''src/i18n/locales/keys.json'', stringify_obj [(''1'', ''1''), (''b'', ''b'')]),
          (''src/i18n/locales/languages.json'', stringify_arr [''en''])]
   \<and> stringify_obj [(''1'', ''1''), (''b'', ''b'')] =
       ''{'' @ [lf] @ ''  '' @ [dquote] @ ''1'' @ [dquote] @ '': '' @ [dquote] @ ''1''
         @ [dquote] @ '','' @ [lf] @ ''  '' @ [dquote] @ ''b'' @ [dquote] @ '': ''
         @ [dquote] @ ''b'' @ [dquote] @ [lf] @ ''}''
   \<and> stringify_obj [(''1'', ''1''), (''b'', ''b'')] \<noteq> stringify_obj [(''b'', ''b''), (''1'', ''1'')]"
  by code_simp

text \<open>
  C9, amended. The outcome of a run does not depend on what the files held before, and
  a second run on the same rows over the files the first one left changes nothing. When
  two runs on the same rows both reach their end, each of them leaves at every path the
  script writes the text of the last write to that path, the same text in both runs, and
  leaves every other path as it was. The writes are one file per own property of
  \<^verbatim>\<open>translations\<close> in enumeration order, then \<^verbatim>\<open>keys.json\<close>, then
  \<^verbatim>\<open>languages.json\<close>. The order within the files is this: \<^verbatim>\<open>languages.json\<close> lists
  the languages in the order of their first non-empty cell on a row with a non-blank key;
  the languages that get a file, the keys of \<^verbatim>\<open>keys.json\<close> and the keys of each
  language file are enumerated with the array indices first, in ascending numeric order,
  and then the other names in the order of their first store, which is the row order
  (the column order for languages); \<^verbatim>\<open>keys.json\<close> maps every key to itself; when no
  stored key is an array index, the keys of \<^verbatim>\<open>keys.json\<close> are in row order. The last
  conjunct is a run with the keys 10, b and 9 in this row order: it gives the text of each
  of the four files, with two-space indentation, the keys 9 and 10 before b.
\<close>

theorem run_deterministic:
  "run ev rows (snd (run ev rows fs)) = run ev rows fs
   \<and> fst (run ev rows fs) = fst (run ev rows fs')
   \<and> (generateTranslations rows = Inr ws \<longrightarrow> fst (run ev rows fs) = None \<longrightarrow>
        fst (run ev' rows fs') = None \<longrightarrow>
        snd (run ev rows fs) p = (if p \<in> fst ` set ws then map_of (rev ws) p else fs p)
        \<and> (p \<in> fst ` set ws \<longrightarrow> snd (run ev rows fs) p = snd (run ev' rows fs') p))
   \<and> (transform rows = Inr st \<longrightarrow>
        generateTranslations rows =
          (if entries_intact st then
             Inr (map (\<lambda>(lang, data). (path_join outputDir (lang @ ''.json''), stringify_obj data))
                    (translations_tab st) @
               [(path_join outputDir ''keys.json'', stringify_obj (keyMap st)),
                (path_join outputDir ''languages.json'', stringify_arr (languages st))])
           else Inl TypeError)
        \<and> languages st = first_seen (filled_languages rows)
        \<and> enumerates (map fst (translations_tab st)) (stored_languages rows)
        \<and> enumerates (map fst (keyMap st)) (stored_keys rows)
        \<and> keyMap st = map (\<lambda>k. (k, k)) (map fst (keyMap st))
        \<and> ((lang, data) \<in> set (translations_tab st) \<longrightarrow>
             enumerates (map fst data) (stored_keys_of_language lang rows))
        \<and> ((\<forall>k\<in>set (stored_keys rows). array_index k = None) \<longrightarrow>
             map fst (keyMap st) = first_seen (stored_keys rows)))
   \<and> map_option generateTranslations
       (papa_parse (''key,en,fr'' @ [lf] @ ''10,a,b'' @ [lf] @ ''b,c,'' @ [lf] @ ''9,,d'')) =
     Some (Inr
       [(''src/i18n/locales/en.json'',
         ''{'' @ [lf] @ ''  '' @ [dquote] @ ''10'' @ [dquote] @ '': '' @ [dquote] @ ''a''
           @ [dquote] @ '','' @ [lf] @ ''  '' @ [dquote] @ ''b'' @ [dquote] @ '': ''
           @ [dquote] @ ''c'' @ [dquote] @ [lf] @ ''}''),
        (''src/i18n/locales/fr.json'',
         ''{'' @ [lf] @ ''  '' @ [dquote] @ ''9'' @ [dquote] @ '': '' @ [dquote] @ ''d''
           @ [dquote] @ '','' @ [lf] @ ''  '' @ [dquote] @ ''10'' @ [dquote] @ '': ''
           @ [dquote] @ ''b'' @ [dquote] @ [lf] @ ''}''),
        (''src/i18n/locales/keys.json'',
         ''{'' @ [lf] @ ''  '' @ [dquote] @ ''9'' @ [dquote] @ '': '' @ [dquote] @ ''9''
           @ [dquote] @ '','' @ [lf] @ ''  '' @ [dquote] @ ''10'' @ [dquote] @ '': ''
           @ [dquote] @ ''10'' @ [dquote] @ '','' @ [lf] @ ''  '' @ [dquote] @ ''b''
           @ [dquote] @ '': '' @ [dquote] @ ''b'' @ [dquote] @ [lf] @ ''}''),
        (''src/i18n/locales/languages.json'',
         ''['' @ [lf] @ ''  '' @ [dquote] @ ''en'' @ [dquote] @ '','' @ [lf]
           @ ''  '' @ [dquote] @ ''fr'' @ [dquote] @ [lf] @ '']'')])"
proof (intro conjI impI)
  show "run ev rows (snd (run ev rows fs)) = run ev rows fs"
    by (rule run_twice)
  show "fst (run ev rows fs) = fst (run ev rows fs')"
    using run_fst [of ev rows fs] run_fst [of ev rows fs'] by simp
next
  assume g: "generateTranslations rows = Inr ws" and c: "fst (run ev rows fs) = None"
  from c obtain st where t: "transform rows = Inr st"
    using run_complete_iff [of ev rows fs] by blast
  have "ws = write_files st"
    using g t by (simp add: generateTranslations_def split: if_splits)
  then show "snd (run ev rows fs) p = (if p \<in> fst ` set ws then map_of (rev ws) p else fs p)"
    using run_complete_files [OF c t] write_all_at [of ws fs p] by simp
next
  assume g: "generateTranslations rows = Inr ws" and c: "fst (run ev rows fs) = None"
    and c': "fst (run ev' rows fs') = None" and p: "p \<in> fst ` set ws"
  from c obtain st where t: "transform rows = Inr st"
    using run_complete_iff [of ev rows fs] by blast
  have w: "ws = write_files st"
    using g t by (simp add: generateTranslations_def split: if_splits)
  have "snd (run ev rows fs) p = map_of (rev ws) p"
    using run_complete_files [OF c t] write_all_at [of ws fs p] w p by simp
  moreover have "snd (run ev' rows fs') p = map_of (rev ws) p"
    using run_complete_files [OF c' t] write_all_at [of ws fs' p] w p by simp
  ultimately show "snd (run ev rows fs) p = snd (run ev' rows fs') p"
    by simp
next
  assume t: "transform rows = Inr st"
  show "generateTranslations rows =
          (if entries_intact st then
             Inr (map (\<lambda>(lang, data). (path_join outputDir (lang @ ''.json''), stringify_obj data))
                    (translations_tab st) @
               [(path_join outputDir ''keys.json'', stringify_obj (keyMap st)),
                (path_join outputDir ''languages.json'', stringify_arr (languages st))])
           else Inl TypeError)"
    using t by (simp add: generateTranslations_def write_files_def language_writes_def)
  show "languages st = first_seen (filled_languages rows)"
    by (rule transform_order(1) [OF t])
  show "enumerates (map fst (translations_tab st)) (stored_languages rows)"
    by (rule transform_order(2) [OF t])
  show "enumerates (map fst (keyMap st)) (stored_keys rows)"
    by (rule transform_order(3) [OF t])
  show "keyMap st = map (\<lambda>k. (k, k)) (map fst (keyMap st))"
    by (rule transform_order(4) [OF t])
next
  assume "transform rows = Inr st" and "(lang, data) \<in> set (translations_tab st)"
  then show "enumerates (map fst data) (stored_keys_of_language lang rows)"
    by (rule transform_language_map)
next
  assume t: "transform rows = Inr st" and "\<forall>k\<in>set (stored_keys rows). array_index k = None"
  then show "map fst (keyMap st) = first_seen (stored_keys rows)"
    using enumerates_names [OF transform_order(3) [OF t]] by simp
next
  show "map_option generateTranslations
       (papa_parse (''key,en,fr'' @ [lf] @ ''10,a,b'' @ [lf] @ ''b,c,'' @ [lf] @ ''9,,d'')) =
     Some (Inr
       [(''src/i18n/locales/en.json'',
         ''{'' @ [lf] @ ''  '' @ [dquote] @ ''10'' @ [dquote] @ '': '' @ [dquote] @ ''a''
           @ [dquote] @ '','' @ [lf] @ ''  '' @ [dquote] @ ''b'' @ [dquote] @ '': ''
           @ [dquote] @ ''c'' @ [dquote] @ [lf] @ ''}''),
        (''src/i18n/locales/fr.json'',
         ''{'' @ [lf] @ ''  '' @ [dquote] @ ''9'' @ [dquote] @ '': '' @ [dquote] @ ''d''
           @ [dquote] @ '','' @ [lf] @ ''  '' @ [dquote] @ ''10'' @ [dquote] @ '': ''
           @ [dquote] @ ''b'' @ [dquote] @ [lf] @ ''}''),
        (''src/i18n/locales/keys.json'',
         ''{'' @ [lf] @ ''  '' @ [dquote] @ ''9'' @ [dquote] @ '': '' @ [dquote] @ ''9''
           @ [dquote] @ '','' @ [lf] @ ''  '' @ [dquote] @ ''10'' @ [dquote] @ '': ''
           @ [dquote] @ ''10'' @ [dquote] @ '','' @ [lf] @ ''  '' @ [dquote] @ ''b''
           @ [dquote] @ '': '' @ [dquote] @ ''b'' @ [dquote] @ [lf] @ ''}''),
        (''src/i18n/locales/languages.json'',
         ''['' @ [lf] @ ''  '' @ [dquote] @ ''en'' @ [dquote] @ '','' @ [lf]
           @ ''  '' @ [dquote] @ ''fr'' @ [dquote] @ [lf] @ '']'')])"
    by code_simp
qed

theorem run_deterministic_witness:
  "transform [[(''key'', JStr ''b''), (''en'', JStr ''x'')],
              [(''key'', JStr ''a''), (''en'', JStr ''y'')]] =
     Inr \<lparr>translations_tab = [(''en'', [(''b'', ''x''), (''a'', ''y'')])],
          keyMap = [(''b'', ''b''), (''a'', ''a'')], languages = [''en''],
          entries_intact = True\<rparr>
   \<and> fst (run all_ok [[(''key'', JStr ''b''), (''en'', JStr ''x'')],
                       [(''key'', JStr ''a''), (''en'', JStr ''y'')]]
            (map_of [(''src/i18n/locales/en.json'', ''old'')])) = None
   \<and> fst (run all_ok [[(''key'', JStr ''b''), (''en'', JStr ''x'')],
                       [(''key'', JStr ''a''), (''en'', JStr ''y'')]] (map_of [])) = None
   \<and> stored_keys [[(''key'', JStr ''b''), (''en'', JStr ''x'')],
                  [(''key'', JStr ''a''), (''en'', JStr ''y'')]] = [''b'', ''a'']
   \<and> array_index ''b'' = None \<and> array_index ''a'' = None
   \<and> snd (run all_ok [[(''key'', JStr ''b''), (''en'', JStr ''x'')],
                       [(''key'', JStr ''a''), (''en'', JStr ''y'')]]
            (map_of [(''src/i18n/locales/en.json'', ''old'')])) ''src/i18n/locales/en.json'' =
     snd (run all_ok [[(''key'', JStr ''b''), (''en'', JStr ''x'')],
                       [(''key'', JStr ''a''), (''en'', JStr ''y'')]] (map_of []))
       ''src/i18n/locales/en.json''
   \<and> enumerates [''b'', ''a'']
       (stored_keys_of_language ''en'' [[(''key'', JStr ''b''), (''en'', JStr ''x'')],
                                        [(''key'', JStr ''a''), (''en'', JStr ''y'')]])
   \<and> [''b'', ''a''] = first_seen (stored_keys [[(''key'', JStr ''b''), (''en'', JStr ''x'')],
                                               [(''key'', JStr ''a''), (''en'', JStr ''y'')]])"
proof -
  let ?rows = "[[(''key'', JStr ''b''), (''en'', JStr ''x'')],
                [(''key'', JStr ''a''), (''en'', JStr ''y'')]]"
  let ?st = "\<lparr>translations_tab = [(''en'', [(''b'', ''x''), (''a'', ''y'')])],
          keyMap = [(''b'', ''b''), (''a'', ''a'')], languages = [''en''],
          entries_intact = True\<rparr>"
  let ?fs = "map_of [(''src/i18n/locales/en.json'', ''old'')]"
  let ?p = "''src/i18n/locales/en.json''"
  have t: "transform ?rows = Inr ?st" by code_simp
  have g: "generateTranslations ?rows = Inr (write_files ?st)"
    using t by (simp add: generateTranslations_def)
  have w: "list_all (\<lambda>w. write_ok all_ok (fst w)) (write_files ?st)"
    by (simp add: all_ok_def list_all_iff)
  have m: "mkdir_ok all_ok" by (simp add: all_ok_def)
  have c: "fst (run all_ok ?rows ?fs) = None"
    using run_complete_iff [of all_ok ?rows ?fs] t w m by simp
  have c': "fst (run all_ok ?rows (map_of [])) = None"
    using run_complete_iff [of all_ok ?rows "map_of []"] t w m by simp
  have p: "?p \<in> fst ` set (write_files ?st)" by code_simp
  have d: "(''en'', [(''b'', ''x''), (''a'', ''y'')]) \<in> set (translations_tab ?st)" by simp
  have k: "stored_keys ?rows = [''b'', ''a'']" by code_simp
  have i: "array_index ''b'' = None" "array_index ''a'' = None" by code_simp+
  have n: "\<forall>k\<in>set (stored_keys ?rows). array_index k = None"
    using k i by simp
  note th = run_deterministic [where ev = all_ok and ev' = all_ok and rows = ?rows
      and fs = ?fs and fs' = "map_of []" and ws = "write_files ?st" and p = ?p and st = ?st
      and lang = "''en''" and data = "[(''b'', ''x''), (''a'', ''y'')]"]
  have 1: "snd (run all_ok ?rows ?fs) ?p = snd (run all_ok ?rows (map_of [])) ?p"
    using th g c c' p by blast
  have 2: "enumerates (map fst [(''b'', ''x''), (''a'', ''y'')])
             (stored_keys_of_language ''en'' ?rows)"
    using th t d by blast
  have 3: "map fst (keyMap ?st) = first_seen (stored_keys ?rows)"
    using th t n by blast
  show ?thesis
    using t c c' k i 1 2 3 by simp
qed

section \<open>The end-to-end scenario\<close>

text \<open>
  C1. The text with header \<^verbatim>\<open>key,en,fr\<close> and the rows \<^verbatim>\<open>hello,Hello,Bonjour\<close> and
  \<^verbatim>\<open>bye,Bye,\<close> parses to two rows, and the script then writes exactly four files, in
  this order: \<^verbatim>\<open>en.json\<close> with hello and bye, \<^verbatim>\<open>fr.json\<close> with hello only,
  \<^verbatim>\<open>keys.json\<close> mapping each key to itself, and \<^verbatim>\<open>languages.json\<close> with the array
  en, fr. The last four equations give the text of each file as it is written, with
  two-space indentation.
\<close>

theorem generateTranslations_scenario:
  "map_option generateTranslations
     (papa_parse (''key,en,fr'' @ [lf] @ ''hello,Hello,Bonjour'' @ [lf] @ ''bye,Bye,'')) =
   Some (Inr
     [(''src/i18n/locales/en.json'', stringify_obj [(''hello'', ''Hello''), (''bye'', ''Bye'')]),
      (''src/i18n/locales/fr.json'', stringify_obj [(''hello'', ''Bonjour'')]),
      (''src/i18n/locales/keys.json'', stringify_obj [(''hello'', ''hello''), (''bye'', ''bye'')]),
      (''src/i18n/locales/languages.json'', stringify_arr [''en'', ''fr''])])
   \<and> stringify_obj [(''hello'', ''Hello''), (''bye'', ''Bye'')] =
       ''{'' @ [lf] @ ''  '' @ [dquote] @ ''hello'' @ [dquote] @ '': '' @ [dquote] @ ''Hello''
         @ [dquote] @ '','' @ [lf] @ ''  '' @ [dquote] @ ''bye'' @ [dquote] @ '': ''
         @ [dquote] @ ''Bye'' @ [dquote] @ [lf] @ ''}''
   \<and> stringify_obj [(''hello'', ''Bonjour'')] =
       ''{'' @ [lf] @ ''  '' @ [dquote] @ ''hello'' @ [dquote] @ '': '' @ [dquote] @ ''Bonjour''
         @ [dquote] @ [lf] @ ''}''
   \<and> stringify_obj [(''hello'', ''hello''), (''bye'', ''bye'')] =
       ''{'' @ [lf] @ ''  '' @ [dquote] @ ''hello'' @ [dquote] @ '': '' @ [dquote] @ ''hello''
         @ [dquote] @ '','' @ [lf] @ ''  '' @ [dquote] @ ''bye'' @ [dquote] @ '': ''
         @ [dquote] @ ''bye'' @ [dquote] @ [lf] @ ''}''
   \<and> stringify_arr [''en'', ''fr''] =
       ''['' @ [lf] @ ''  '' @ [dquote] @ ''en'' @ [dquote] @ '','' @ [lf]
         @ ''  '' @ [dquote] @ ''fr'' @ [dquote] @ [lf] @ '']''"
  by code_simp

end
